theory Spec2Isabelle
  imports Main
begin

section \<open>JavaScript strings\<close>

text \<open>
  The converter (\<^verbatim>\<open>src/src/engine/converter.ts\<close>) works on JavaScript strings. A string
  is modelled as a \<^typ>\<open>string\<close> whose characters stand for the code units 0 to 255 (the
  Latin-1 range); text with code units above 255 is outside the model. In that range the
  white space of \<^verbatim>\<open>String.prototype.trim\<close> and of the regular expression class
  \<^verbatim>\<open>\s\<close> is: tab, line feed, vertical tab, form feed, carriage return, space and the
  no-break space.
\<close>

definition is_space :: "char \<Rightarrow> bool" where
  "is_space c = (c \<in> set [CHR 0x09, CHR 0x0A, CHR 0x0B, CHR 0x0C, CHR 0x0D, CHR 0x20, CHR 0xA0])"

definition newline :: char where
  "newline = CHR 0x0A"

text \<open>The class \<^verbatim>\<open>\w\<close> of a regular expression without the unicode flag.\<close>

definition is_word :: "char \<Rightarrow> bool" where
  "is_word c = (c \<in> set ''abcdefghijklmnopqrstuvwxyzABCDEFGHIJKLMNOPQRSTUVWXYZ0123456789_'')"

definition is_alpha :: "char \<Rightarrow> bool" where
  "is_alpha c = (c \<in> set ''abcdefghijklmnopqrstuvwxyzABCDEFGHIJKLMNOPQRSTUVWXYZ'')"

definition trim :: "string \<Rightarrow> string" where
  "trim s = rev (dropWhile is_space (rev (dropWhile is_space s)))"

definition startsWith :: "string \<Rightarrow> string \<Rightarrow> bool" where
  "startsWith s p = (take (length p) s = p)"

text \<open>\<^verbatim>\<open>s.includes(sub)\<close>: \<open>sub\<close> occurs in \<open>s\<close> as a contiguous substring.\<close>

fun str_includes :: "string \<Rightarrow> string \<Rightarrow> bool" where
  "str_includes [] sub = (sub = [])"
| "str_includes (c # cs) sub = (startsWith (c # cs) sub \<or> str_includes cs sub)"

text \<open>\<^verbatim>\<open>s.indexOf(c)\<close> for a one-character needle; \<open>None\<close> stands for -1.\<close>

fun indexOf :: "string \<Rightarrow> char \<Rightarrow> nat option" where
  "indexOf [] d = None"
| "indexOf (c # cs) d = (if c = d then Some 0 else map_option Suc (indexOf cs d))"

text \<open>\<^verbatim>\<open>s.split(d)\<close> for a one-character separator: the result is never empty.\<close>

fun split_char :: "char \<Rightarrow> string \<Rightarrow> string list" where
  "split_char d [] = [[]]"
| "split_char d (c # cs) =
     (if c = d then [] # split_char d cs
      else (case split_char d cs of [] \<Rightarrow> [[c]] | w # ws \<Rightarrow> (c # w) # ws))"

text \<open>
  \<^verbatim>\<open>s.split(/\s+/)\<close>: the pieces between maximal runs of white space. A leading or a
  trailing run leaves an empty piece, and the empty string gives one empty piece.
\<close>

fun skip_spaces_split :: "string \<Rightarrow> string list"
  and split_ws :: "string \<Rightarrow> string list" where
  "skip_spaces_split [] = [[]]"
| "skip_spaces_split (c # cs) =
     (if is_space c then skip_spaces_split cs
      else (case split_ws cs of [] \<Rightarrow> [[c]] | w # ws \<Rightarrow> (c # w) # ws))"
| "split_ws [] = [[]]"
| "split_ws (c # cs) =
     (if is_space c then [] # skip_spaces_split cs
      else (case split_ws cs of [] \<Rightarrow> [[c]] | w # ws \<Rightarrow> (c # w) # ws))"

text \<open>\<^verbatim>\<open>parts.join(sep)\<close>.\<close>

fun join :: "string \<Rightarrow> string list \<Rightarrow> string" where
  "join sep [] = []"
| "join sep [x] = x"
| "join sep (x # y # ys) = x @ sep @ join sep (y # ys)"

text \<open>
  \<^verbatim>\<open>s.toLowerCase()\<close> on the code units 0 to 255: the ASCII capitals and the Latin-1
  capitals \<open>0xC0\<close> to \<open>0xDE\<close> (without the multiplication sign \<open>0xD7\<close>) move to their
  small letters, every other code unit stays.
\<close>

definition lower_table :: "(char \<times> char) list" where
  "lower_table =
     zip ''ABCDEFGHIJKLMNOPQRSTUVWXYZ'' ''abcdefghijklmnopqrstuvwxyz'' @
     zip [CHR 0xC0, CHR 0xC1, CHR 0xC2, CHR 0xC3, CHR 0xC4, CHR 0xC5, CHR 0xC6, CHR 0xC7,
          CHR 0xC8, CHR 0xC9, CHR 0xCA, CHR 0xCB, CHR 0xCC, CHR 0xCD, CHR 0xCE, CHR 0xCF,
          CHR 0xD0, CHR 0xD1, CHR 0xD2, CHR 0xD3, CHR 0xD4, CHR 0xD5, CHR 0xD6,
          CHR 0xD8, CHR 0xD9, CHR 0xDA, CHR 0xDB, CHR 0xDC, CHR 0xDD, CHR 0xDE]
         [CHR 0xE0, CHR 0xE1, CHR 0xE2, CHR 0xE3, CHR 0xE4, CHR 0xE5, CHR 0xE6, CHR 0xE7,
          CHR 0xE8, CHR 0xE9, CHR 0xEA, CHR 0xEB, CHR 0xEC, CHR 0xED, CHR 0xEE, CHR 0xEF,
          CHR 0xF0, CHR 0xF1, CHR 0xF2, CHR 0xF3, CHR 0xF4, CHR 0xF5, CHR 0xF6,
          CHR 0xF8, CHR 0xF9, CHR 0xFA, CHR 0xFB, CHR 0xFC, CHR 0xFD, CHR 0xFE]"

definition toLowerCase :: "string \<Rightarrow> string" where
  "toLowerCase s = map (\<lambda>c. case map_of lower_table c of None \<Rightarrow> c | Some l \<Rightarrow> l) s"

section \<open>Regular expressions of the source\<close>

text \<open>
  Every quantifier in the regular expressions of the source stands on a character class,
  so a pattern is a sequence of the atoms below. \<open>rx\<close> is the backtracking matcher of
  ECMAScript on such a sequence: a greedy quantifier tries the longest run first, a lazy
  one the shortest, an alternation its branches in order, and the first way to match
  the whole sequence wins. \<open>rx\<close> returns the rest of the input behind the match and the
  marks of the capture groups (the length of the input still unread when a group opens
  or closes, latest first). The flag tells whether the position is index 0 of the
  input, which is where \<^verbatim>\<open>^\<close> matches without the multiline flag.
\<close>

datatype atom =
    Lit string
  | Star "char \<Rightarrow> bool"
  | Plus "char \<Rightarrow> bool"
  | LazyStar "char \<Rightarrow> bool"
  | Alts "string list"
  | StartOrNewline
  | Mark

fun atom_weight :: "atom \<Rightarrow> nat" where
  "atom_weight (Alts ls) = Suc (length ls)"
| "atom_weight a = 1"

function (sequential) rx :: "atom list \<Rightarrow> bool \<Rightarrow> string \<Rightarrow> nat list \<Rightarrow> (nat list \<times> string) option" where
  "rx [] b s ms = Some (ms, s)"
| "rx (Lit l # as) b s ms =
     (if startsWith s l then rx as (b \<and> l = []) (drop (length l) s) ms else None)"
| "rx (Star c # as) b [] ms = rx as b [] ms"
| "rx (Star c # as) b (x # xs) ms =
     (if c x
      then (case rx (Star c # as) False xs ms of
              Some r \<Rightarrow> Some r
            | None \<Rightarrow> rx as b (x # xs) ms)
      else rx as b (x # xs) ms)"
| "rx (Plus c # as) b [] ms = None"
| "rx (Plus c # as) b (x # xs) ms =
     (if c x then rx (Star c # as) False xs ms else None)"
| "rx (LazyStar c # as) b [] ms = rx as b [] ms"
| "rx (LazyStar c # as) b (x # xs) ms =
     (case rx as b (x # xs) ms of
        Some r \<Rightarrow> Some r
      | None \<Rightarrow> (if c x then rx (LazyStar c # as) False xs ms else None))"
| "rx (Alts [] # as) b s ms = None"
| "rx (Alts (l # ls) # as) b s ms =
     (case (if startsWith s l then rx as (b \<and> l = []) (drop (length l) s) ms else None) of
        Some r \<Rightarrow> Some r
      | None \<Rightarrow> rx (Alts ls # as) b s ms)"
| "rx (StartOrNewline # as) b [] ms = (if b then rx as b [] ms else None)"
| "rx (StartOrNewline # as) b (x # xs) ms =
     (case (if b then rx as b (x # xs) ms else None) of
        Some r \<Rightarrow> Some r
      | None \<Rightarrow> (if x = newline then rx as False xs ms else None))"
| "rx (Mark # as) b s ms = rx as b s (length s # ms)"
  by pat_completeness auto
termination
  by (relation "measures [\<lambda>(re, b, s, ms). sum_list (map atom_weight re),
                          \<lambda>(re, b, s, ms). length s]") auto

text \<open>
  A match of a pattern at the head of \<open>s\<close>: the matched text, the text of the capture
  groups (first group first) and the rest of the input.
\<close>

fun groups_of :: "string \<Rightarrow> nat list \<Rightarrow> string list" where
  "groups_of s (close # opn # ms) =
     groups_of s ms @ [take (opn - close) (drop (length s - opn) s)]"
| "groups_of s ms = []"

definition match_here :: "atom list \<Rightarrow> bool \<Rightarrow> string \<Rightarrow> (string \<times> string list \<times> string) option" where
  "match_here re b s =
     (case rx re b s [] of
        None \<Rightarrow> None
      | Some (ms, rest) \<Rightarrow> Some (take (length s - length rest) s, groups_of s ms, rest))"

text \<open>
  The loop \<^verbatim>\<open>while ((match = re.exec(text)) !== null)\<close> of a global pattern: the
  matches from left to right, each search starting behind the last match. No pattern of
  the source matches the empty string; a model of one that did would step one character,
  as \<^verbatim>\<open>replace\<close> does.
\<close>

function exec_all :: "atom list \<Rightarrow> bool \<Rightarrow> string \<Rightarrow> (string \<times> string list) list" where
  "exec_all re b [] = []"
| "exec_all re b (x # xs) =
     (case match_here re b (x # xs) of
        None \<Rightarrow> exec_all re False xs
      | Some (whole, gs, rest) \<Rightarrow>
          (if length rest < length (x # xs)
           then (whole, gs) # exec_all re False rest
           else (whole, gs) # exec_all re False xs))"
  by pat_completeness auto
termination
  by (relation "measure (\<lambda>(re, b, s). length s)") auto

text \<open>\<^verbatim>\<open>text.replace(re, '')\<close> for a global pattern: the text outside the matches.\<close>

function remove_all :: "atom list \<Rightarrow> bool \<Rightarrow> string \<Rightarrow> string" where
  "remove_all re b [] = []"
| "remove_all re b (x # xs) =
     (case match_here re b (x # xs) of
        None \<Rightarrow> x # remove_all re False xs
      | Some (whole, gs, rest) \<Rightarrow>
          (if length rest < length (x # xs)
           then remove_all re False rest
           else x # remove_all re False xs))"
  by pat_completeness auto
termination
  by (relation "measure (\<lambda>(re, b, s). length s)") auto

section \<open>The stylesheet normalizer\<close>

text \<open>\<^verbatim>\<open>wrapCssVariables\<close>: a value with an opaque function is wrapped whole.\<close>

definition wrapCssVariables :: "string \<Rightarrow> string" where
  "wrapCssVariables v =
     (let trimmed = trim v in
      if str_includes trimmed ''var(--'' \<or> str_includes trimmed ''calc('' \<or>
         str_includes trimmed ''clamp('' \<or> str_includes trimmed ''min('' \<or>
         str_includes trimmed ''max(''
      then ''@raw<|'' @ trimmed @ ''|>''
      else trimmed)"

text \<open>
  \<^verbatim>\<open>expandShorthand\<close>. \<open>values\<close> is never empty; \<^verbatim>\<open>values[1] || values[0]\<close>
  takes the second piece when there is one and it is not the empty string.
\<close>

definition expandShorthand :: "string \<Rightarrow> string \<Rightarrow> string" where
  "expandShorthand prop v =
     (let values = split_ws (trim v); n = length values in
      if prop = ''margin'' \<or> prop = ''padding'' then
        (if n = 1 then
           prop @ ''-top: '' @ values ! 0 @ ''; '' @ prop @ ''-right: '' @ values ! 0 @ ''; '' @
           prop @ ''-bottom: '' @ values ! 0 @ ''; '' @ prop @ ''-left: '' @ values ! 0 @ '';''
         else if n = 2 then
           prop @ ''-top: '' @ values ! 0 @ ''; '' @ prop @ ''-right: '' @ values ! 1 @ ''; '' @
           prop @ ''-bottom: '' @ values ! 0 @ ''; '' @ prop @ ''-left: '' @ values ! 1 @ '';''
         else if n = 3 then
           prop @ ''-top: '' @ values ! 0 @ ''; '' @ prop @ ''-right: '' @ values ! 1 @ ''; '' @
           prop @ ''-bottom: '' @ values ! 2 @ ''; '' @ prop @ ''-left: '' @ values ! 1 @ '';''
         else if n = 4 then
           prop @ ''-top: '' @ values ! 0 @ ''; '' @ prop @ ''-right: '' @ values ! 1 @ ''; '' @
           prop @ ''-bottom: '' @ values ! 2 @ ''; '' @ prop @ ''-left: '' @ values ! 3 @ '';''
         else [])
      else if prop = ''border-radius'' then
        (if n = 1 then
           ''border-top-left-radius: '' @ values ! 0 @ ''; border-top-right-radius: '' @ values ! 0 @
           ''; border-bottom-left-radius: '' @ values ! 0 @
           ''; border-bottom-right-radius: '' @ values ! 0 @ '';''
         else if n = 2 then
           ''border-top-left-radius: '' @ values ! 0 @ ''; border-top-right-radius: '' @ values ! 1 @
           ''; border-bottom-right-radius: '' @ values ! 0 @
           ''; border-bottom-left-radius: '' @ values ! 1 @ '';''
         else if n = 4 then
           ''border-top-left-radius: '' @ values ! 0 @ ''; border-top-right-radius: '' @ values ! 1 @
           ''; border-bottom-right-radius: '' @ values ! 2 @
           ''; border-bottom-left-radius: '' @ values ! 3 @ '';''
         else [])
      else if prop = ''gap'' then
        ''grid-column-gap: '' @ values ! 0 @ ''; grid-row-gap: '' @
        (if 1 < n \<and> values ! 1 \<noteq> [] then values ! 1 else values ! 0) @ '';''
      else if prop = ''background'' then
        (if startsWith v ''#'' \<or> startsWith v ''rgb'' \<or>
            (trim v \<noteq> [] \<and> list_all is_alpha (trim v))
         then ''background-color: '' @ v @ '';''
         else prop @ '': '' @ v @ '';'')
      else prop @ '': '' @ v @ '';'')"

text \<open>
  The body of \<^verbatim>\<open>properties.split(';').forEach(p => ...)\<close> in
  \<^verbatim>\<open>parseCssToStyleLess\<close>: the text one piece adds to \<^verbatim>\<open>styleLess\<close> (nothing
  for a piece that is blank or has no colon).
\<close>

definition declarationText :: "string \<Rightarrow> string" where
  "declarationText p =
     (let trimmed = trim p in
      if trimmed = [] then []
      else (case indexOf trimmed (CHR '':'') of
              None \<Rightarrow> []
            | Some colonIndex \<Rightarrow>
                (let propName = trim (take colonIndex trimmed);
                     propValue = wrapCssVariables (trim (drop (colonIndex + 1) trimmed))
                 in if startsWith propValue ''@raw<|''
                    then '' '' @ propName @ '': '' @ propValue @ '';''
                    else '' '' @ expandShorthand propName propValue)))"

text \<open>
  A JavaScript \<^verbatim>\<open>Map\<close> with string keys, as an association list in insertion order:
  \<^verbatim>\<open>set\<close> on a key that is present keeps its place and replaces the value.
\<close>

type_synonym 'v jsmap = "(string \<times> 'v) list"

fun map_set :: "'v jsmap \<Rightarrow> string \<Rightarrow> 'v \<Rightarrow> 'v jsmap" where
  "map_set [] k v = [(k, v)]"
| "map_set ((k', v') # m) k v = (if k' = k then (k, v) # m else (k', v') # map_set m k v)"

definition map_get :: "'v jsmap \<Rightarrow> string \<Rightarrow> 'v option" where
  "map_get m k = map_of m k"

text \<open>The three patterns of \<^verbatim>\<open>parseCssToStyleLess\<close>.\<close>

definition commentRegex :: "atom list" where
  "commentRegex = [Lit ''/*'', LazyStar (\<lambda>c. True), Lit ''*/'']"

definition mediaRegex :: "atom list" where
  "mediaRegex =
     [Lit ''@media'', Plus (\<lambda>c. c \<noteq> CHR ''{''), Lit ''{'', LazyStar (\<lambda>c. True),
      Lit ''}'', Star is_space, Lit ''}'']"

definition ruleRegex :: "atom list" where
  "ruleRegex =
     [Mark, Plus (\<lambda>c. c \<notin> set [CHR ''{'', CHR ''}'', newline, CHR ''@'']), Mark,
      Star is_space, Lit ''{'',
      Mark, Plus (\<lambda>c. c \<notin> set [CHR ''{'', CHR ''}'']), Mark, Lit ''}'']"

text \<open>One round of the rule loop of \<^verbatim>\<open>parseCssToStyleLess\<close>.\<close>

definition addRule :: "string jsmap \<Rightarrow> (string \<times> string list) \<Rightarrow> string jsmap" where
  "addRule styleMap m =
     (let selector = trim (snd m ! 0);
          properties = trim (snd m ! 1)
      in if startsWith selector ''@'' then styleMap
         else (let styleLess = concat (map declarationText (split_char (CHR '';'') properties))
               in if trim styleLess \<noteq> [] then map_set styleMap selector (trim styleLess)
                  else styleMap))"

definition parseCssToStyleLess :: "string \<Rightarrow> string jsmap" where
  "parseCssToStyleLess css =
     (let cleanCss = remove_all mediaRegex True (remove_all commentRegex True css)
      in foldl addRule [] (exec_all ruleRegex True cleanCss))"

text \<open>
  \<^verbatim>\<open>parseCssVariables\<close> fills \<^verbatim>\<open>this.cssVariables\<close>, which \<^verbatim>\<open>convert\<close> writes
  and never reads: it has no part in the output and is left out.
\<close>

section \<open>The advanced-CSS extractor\<close>

definition rootRegex :: "atom list" where
  "rootRegex = [Lit '':root'', Star is_space, Lit ''{'', Plus (\<lambda>c. c \<noteq> CHR ''}''), Lit ''}'']"

definition attrSelectorRegex :: "atom list" where
  "attrSelectorRegex =
     [Mark, Star (\<lambda>c. c \<notin> set [CHR ''{'', CHR ''}'', CHR ''@'']), Lit ''['',
      Plus (\<lambda>c. c \<noteq> CHR '']''), Lit '']'', Star (\<lambda>c. c \<noteq> CHR ''{''), Mark,
      Lit ''{'', Mark, Plus (\<lambda>c. c \<noteq> CHR ''}''), Mark, Lit ''}'']"

definition complexPseudoRegex :: "atom list" where
  "complexPseudoRegex =
     [Mark, Star (\<lambda>c. c \<notin> set [CHR ''{'', CHR ''}'', CHR ''@'']), Lit '':'',
      Alts [''is'', ''where'', ''has'', ''not''], Lit ''('', Plus (\<lambda>c. c \<noteq> CHR '')''),
      Lit '')'', Star (\<lambda>c. c \<noteq> CHR ''{''), Mark,
      Lit ''{'', Mark, Plus (\<lambda>c. c \<noteq> CHR ''}''), Mark, Lit ''}'']"

definition elementRegex :: "atom list" where
  "elementRegex =
     [StartOrNewline, Star is_space,
      Mark, Alts [''html'', ''body'', ''*'', '':root''], Star (\<lambda>c. c \<noteq> CHR ''{''), Mark,
      Lit ''{'', Mark, Plus (\<lambda>c. c \<noteq> CHR ''}''), Mark, Lit ''}'']"

definition keyframesRegex :: "atom list" where
  "keyframesRegex =
     [Lit ''@keyframes'', Plus is_space, Plus (\<lambda>c. is_word c \<or> c = CHR ''-''),
      Star is_space, Lit ''{'', LazyStar (\<lambda>c. True), Lit ''}'', Star is_space, Lit ''}'']"

definition fontFaceRegex :: "atom list" where
  "fontFaceRegex =
     [Lit ''@font-face'', Star is_space, Lit ''{'', Plus (\<lambda>c. c \<noteq> CHR ''}''), Lit ''}'']"

definition importRegex :: "atom list" where
  "importRegex = [Lit ''@import'', Plus is_space, Plus (\<lambda>c. c \<noteq> CHR '';''), Lit '';'']"

definition ruleText :: "string \<times> string list \<Rightarrow> string" where
  "ruleText m = trim (snd m ! 0) @ '' {'' @ [newline] @ snd m ! 1 @ [newline] @ ''}''"

definition addAttrRule :: "string list \<Rightarrow> string \<times> string list \<Rightarrow> string list" where
  "addAttrRule advancedRules m =
     (if trim (snd m ! 0) \<noteq> [] then advancedRules @ [ruleText m] else advancedRules)"

definition addPseudoRule :: "string list \<Rightarrow> string \<times> string list \<Rightarrow> string list" where
  "addPseudoRule advancedRules m =
     (if ruleText m \<notin> set advancedRules \<and> \<not> str_includes (trim (snd m ! 0)) ''[''
      then advancedRules @ [ruleText m] else advancedRules)"

definition addElementRule :: "string list \<Rightarrow> string \<times> string list \<Rightarrow> string list" where
  "addElementRule advancedRules m =
     (if \<not> list_ex (\<lambda>r. str_includes r (trim (snd m ! 0))) advancedRules
      then advancedRules @ [ruleText m] else advancedRules)"

definition extractAdvancedCss :: "string \<Rightarrow> string" where
  "extractAdvancedCss css =
     (let r1 = map fst (exec_all rootRegex True css);
          r2 = r1 @ map fst (exec_all mediaRegex True css);
          cssWithoutMedia = remove_all mediaRegex True css;
          r3 = foldl addAttrRule r2 (exec_all attrSelectorRegex True cssWithoutMedia);
          r4 = foldl addPseudoRule r3 (exec_all complexPseudoRegex True cssWithoutMedia);
          r5 = foldl addElementRule r4 (exec_all elementRegex True cssWithoutMedia);
          r6 = r5 @ map fst (exec_all keyframesRegex True css);
          r7 = r6 @ map fst (exec_all fontFaceRegex True css);
          r8 = r7 @ map fst (exec_all importRegex True css)
      in join [newline, newline] r8)"

section \<open>The parsed markup\<close>

text \<open>
  \<^verbatim>\<open>DOMParser\<close> is the browser's: the model starts from the document it returns. An
  element carries \<^verbatim>\<open>tagName.toLowerCase()\<close>, its attributes in order and its child
  nodes; a \<open>CommentNode\<close> carries the text of the comment. \<^verbatim>\<open>doc.body\<close> is the body
  or the frameset element of the page: \<open>doc_body_tag\<close> is its tag.
\<close>

datatype dnode =
    Element string "(string \<times> string) list" "dnode list"
  | TextNode string
  | CommentNode string

record document =
  doc_head :: "dnode list"
  doc_body_tag :: string
  doc_body_attrs :: "(string \<times> string) list"
  doc_body_nodes :: "dnode list"

definition doc_body :: "document \<Rightarrow> dnode" where
  "doc_body d = Element (doc_body_tag d) (doc_body_attrs d) (doc_body_nodes d)"

fun is_element :: "dnode \<Rightarrow> bool" where
  "is_element (Element t a ks) = True"
| "is_element n = False"

fun tagName :: "dnode \<Rightarrow> string" where
  "tagName (Element t a ks) = t"
| "tagName n = []"

fun attributes :: "dnode \<Rightarrow> (string \<times> string) list" where
  "attributes (Element t a ks) = a"
| "attributes n = []"

fun childNodes :: "dnode \<Rightarrow> dnode list" where
  "childNodes (Element t a ks) = ks"
| "childNodes n = []"

definition getAttribute :: "dnode \<Rightarrow> string \<Rightarrow> string option" where
  "getAttribute el name = map_of (attributes el) name"

text \<open>\<^verbatim>\<open>el.getAttribute(name) || dflt\<close>: a missing or empty attribute gives the default.\<close>

definition attr_or :: "dnode \<Rightarrow> string \<Rightarrow> string \<Rightarrow> string" where
  "attr_or el name dflt =
     (case getAttribute el name of None \<Rightarrow> dflt | Some v \<Rightarrow> if v = [] then dflt else v)"

text \<open>
  \<^verbatim>\<open>el.classList\<close>: the tokens of the class attribute between ASCII white space, each
  once, in the order of their first occurrence.
\<close>

definition is_ascii_space :: "char \<Rightarrow> bool" where
  "is_ascii_space c = (c \<in> set [CHR 0x09, CHR 0x0A, CHR 0x0C, CHR 0x0D, CHR 0x20])"

fun tokens :: "string \<Rightarrow> string \<Rightarrow> string list" where
  "tokens cur [] = (if cur = [] then [] else [cur])"
| "tokens cur (c # cs) =
     (if is_ascii_space c then (if cur = [] then tokens [] cs else cur # tokens [] cs)
      else tokens (cur @ [c]) cs)"

definition classList :: "dnode \<Rightarrow> string list" where
  "classList el =
     (case getAttribute el ''class'' of
        None \<Rightarrow> []
      | Some v \<Rightarrow> rev (remdups (rev (tokens [] v))))"

text \<open>\<^verbatim>\<open>node.textContent\<close>: the text of the text nodes below, in document order.\<close>

fun textContent :: "dnode \<Rightarrow> string"
  and textContents :: "dnode list \<Rightarrow> string" where
  "textContent (Element t a ks) = textContents ks"
| "textContent (TextNode s) = s"
| "textContent (CommentNode c) = []"
| "textContents [] = []"
| "textContents (k # ks) = textContent k @ textContents ks"

text \<open>
  \<^verbatim>\<open>doc.querySelectorAll('style')\<close>: the style elements in document order; and the
  tree after \<^verbatim>\<open>styleTag.remove()\<close> has run on each of them.
\<close>

fun styleElements :: "dnode \<Rightarrow> dnode list"
  and styleElementsOf :: "dnode list \<Rightarrow> dnode list" where
  "styleElements (Element t a ks) =
     (if t = ''style'' then [Element t a ks] else []) @ styleElementsOf ks"
| "styleElements (TextNode s) = []"
| "styleElements (CommentNode c) = []"
| "styleElementsOf [] = []"
| "styleElementsOf (k # ks) = styleElements k @ styleElementsOf ks"

fun removeStyles :: "dnode list \<Rightarrow> dnode list" where
  "removeStyles [] = []"
| "removeStyles (Element t a ks # ns) =
     (if t = ''style'' then removeStyles ns else Element t a (removeStyles ks) # removeStyles ns)"
| "removeStyles (n # ns) = n # removeStyles ns"

definition querySelectorAll_style :: "document \<Rightarrow> dnode list" where
  "querySelectorAll_style d = styleElementsOf (doc_head d) @ styleElementsOf (doc_body_nodes d)"

definition removeStyleTags :: "document \<Rightarrow> document" where
  "removeStyleTags d =
     d\<lparr>doc_head := removeStyles (doc_head d), doc_body_nodes := removeStyles (doc_body_nodes d)\<rparr>"

text \<open>
  Two services of the browser stay parameters of the model: \<^verbatim>\<open>el.matches(selector)\<close>,
  asked for the element at a path of child-node indices below the body (\<open>None\<close>: the call
  throws, which the converter catches), and \<^verbatim>\<open>el.outerHTML\<close>.
\<close>

record host =
  el_matches :: "nat list \<Rightarrow> string \<Rightarrow> bool option"
  outerHTML :: "dnode \<Rightarrow> string"

section \<open>Tables of the converter\<close>

text \<open>
  \<^verbatim>\<open>TAG_MAP[tagName]\<close> reads a plain object, so the tag \<^verbatim>\<open>constructor\<close> finds the
  inherited \<^verbatim>\<open>Object\<close> function, a truthy value that is no type name.
\<close>

datatype type_value = TypeName string | ObjectFunction

definition TAG_MAP :: "(string \<times> string) list" where
  "TAG_MAP =
     [(''div'', ''Block''), (''section'', ''Section''), (''header'', ''Block''),
      (''footer'', ''Block''), (''main'', ''Block''), (''article'', ''Block''),
      (''aside'', ''Block''), (''nav'', ''Block''), (''h1'', ''Heading''), (''h2'', ''Heading''),
      (''h3'', ''Heading''), (''h4'', ''Heading''), (''h5'', ''Heading''), (''h6'', ''Heading''),
      (''p'', ''Paragraph''), (''a'', ''Link''), (''span'', ''Block''), (''img'', ''Image''),
      (''ul'', ''List''), (''ol'', ''List''), (''li'', ''ListItem''), (''strong'', ''Strong''),
      (''b'', ''Strong''), (''em'', ''Emphasized''), (''i'', ''Emphasized''),
      (''blockquote'', ''Blockquote''), (''figure'', ''Figure''), (''figcaption'', ''Figcaption''),
      (''button'', ''Block''), (''form'', ''Block''), (''input'', ''Block''), (''label'', ''Block''),
      (''textarea'', ''Block''), (''select'', ''Block'')]"

definition tagType :: "string \<Rightarrow> type_value option" where
  "tagType t =
     (case map_of TAG_MAP t of
        Some ty \<Rightarrow> Some (TypeName ty)
      | None \<Rightarrow> if t = ''constructor'' then Some ObjectFunction else None)"

definition IGNORED_TAGS :: "string list" where
  "IGNORED_TAGS =
     [''html'', ''head'', ''body'', ''meta'', ''link'', ''title'', ''base'', ''noscript'',
      ''template'', ''slot'', ''doctype'', ''!doctype'', ''colgroup'', ''col'', ''caption'',
      ''thead'', ''tbody'', ''tfoot'', ''tr'', ''th'', ''td'', ''br'', ''hr'', ''wbr'', ''area'',
      ''map'', ''track'', ''source'', ''param'', ''object'', ''embed'', ''portal'', ''picture'']"

definition STANDARD_ATTRS :: "string list" where
  "STANDARD_ATTRS =
     [''class'', ''id'', ''style'', ''src'', ''alt'', ''href'', ''target'', ''width'', ''height'',
      ''loading'', ''type'', ''name'', ''value'', ''placeholder'', ''disabled'', ''readonly'',
      ''checked'', ''selected'', ''for'', ''action'', ''method'', ''enctype'', ''rel'', ''media'']"

section \<open>Output nodes and styles\<close>

text \<open>
  \<^verbatim>\<open>WebflowNode\<close> and \<^verbatim>\<open>WebflowStyle\<close> of \<^verbatim>\<open>types.ts\<close>. Every field of a node but
  \<^verbatim>\<open>_id\<close> is optional. Of the \<^verbatim>\<open>data\<close> payload and of a style the fields that vary are
  kept; the others hold the same constant in every object the converter builds.
\<close>

datatype extra =
    NoExtra
  | SectionGrid
  | LinkData string string string
  | ImageData string
  | ListData
  | ListItemData

datatype node_data =
    ElementData string "(string \<times> string) list" "(string \<times> string) list" extra
  | DomData string "(string \<times> string) list" "(string \<times> string) list"
  | EmbedData string bool

record WebflowNode =
  n_id :: string
  n_type :: "type_value option"
  n_tag :: "string option"
  n_classes :: "string list option"
  n_children :: "string list option"
  n_data :: "node_data option"
  n_text :: "bool option"
  n_v :: "string option"

record WebflowStyle =
  s_id :: string
  s_name :: string
  s_styleLess :: string

record WebflowClipboardData =
  payload_nodes :: "WebflowNode list"
  payload_styles :: "WebflowStyle list"

section \<open>The conversion session\<close>

text \<open>
  The fields of \<^verbatim>\<open>WebflowConverter\<close>. \<^verbatim>\<open>styleMap\<close> holds the very objects that
  \<^verbatim>\<open>styles\<close> holds, so it maps an identifier to the position of that object in
  \<open>styles\<close>, and a change through it is a change of \<open>styles\<close>. \<^verbatim>\<open>uuidv4()\<close> is
  modelled by a counter: the n-th call of a conversion returns \<open>uuid_text n\<close>, a text
  that is not empty, holds no colon and differs from call to call.
\<close>

record converter =
  nodes :: "WebflowNode list"
  styles :: "WebflowStyle list"
  styleIdMap :: "string jsmap"
  usedClasses :: "string list"
  complexRules :: "string jsmap"
  selectorToClassMap :: "string jsmap"
  styleMap :: "nat jsmap"
  processedMerges :: "string list"
  uuidCount :: nat

definition uuid_text :: "nat \<Rightarrow> string" where
  "uuid_text n = CHR ''u'' # replicate n (CHR ''+'')"

definition uuidv4 :: "converter \<Rightarrow> string \<times> converter" where
  "uuidv4 st = (uuid_text (uuidCount st), st\<lparr>uuidCount := Suc (uuidCount st)\<rparr>)"

definition pushNode :: "WebflowNode \<Rightarrow> converter \<Rightarrow> converter" where
  "pushNode n st = st\<lparr>nodes := nodes st @ [n]\<rparr>"

definition blockNode :: "string \<Rightarrow> string list \<Rightarrow> WebflowNode" where
  "blockNode i cs =
     \<lparr>n_id = i, n_type = Some (TypeName ''Block''), n_tag = Some ''div'', n_classes = Some [],
      n_children = Some cs, n_data = Some (ElementData ''div'' [(''id'', [])] [] NoExtra),
      n_text = None, n_v = None\<rparr>"

definition textNode :: "string \<Rightarrow> string \<Rightarrow> WebflowNode" where
  "textNode i content =
     \<lparr>n_id = i, n_type = None, n_tag = None, n_classes = None, n_children = None,
      n_data = None, n_text = Some True, n_v = Some content\<rparr>"

definition createHtmlEmbed :: "string \<Rightarrow> bool \<Rightarrow> converter \<Rightarrow> WebflowNode \<times> converter" where
  "createHtmlEmbed content isScript st =
     (case uuidv4 st of
        (i, st') \<Rightarrow>
          (\<lparr>n_id = i, n_type = Some (TypeName ''HtmlEmbed''), n_tag = Some ''div'',
            n_classes = Some [], n_children = Some [], n_data = Some (EmbedData content isScript),
            n_text = None, n_v = Some content\<rparr>, st'))"

section \<open>Class usage\<close>

fun collectUsedClasses :: "dnode \<Rightarrow> string list"
  and collectUsedClassesOf :: "dnode list \<Rightarrow> string list" where
  "collectUsedClasses (Element t a ks) =
     (if t \<notin> set IGNORED_TAGS then classList (Element t a ks) else []) @ collectUsedClassesOf ks"
| "collectUsedClasses (TextNode s) = []"
| "collectUsedClasses (CommentNode c) = []"
| "collectUsedClassesOf [] = []"
| "collectUsedClassesOf (k # ks) =
     (if is_element k \<and> tagName k \<noteq> ''script'' \<and> tagName k \<noteq> ''svg'' \<and> tagName k \<noteq> ''style''
      then collectUsedClasses k else []) @ collectUsedClassesOf ks"

section \<open>Styles from the normalized stylesheet\<close>

definition commonTagSelectors :: "string list" where
  "commonTagSelectors =
     [''h'', ''1'', ''2'', ''3'', ''4'', ''5'', ''6'', ''p'', ''div'', ''span'', ''a'', ''button'',
      ''input'', ''section'', ''header'', ''footer'', ''main'', ''aside'', ''nav'']"

text \<open>\<^verbatim>\<open>replace(/\s+/g, '-')\<close> and \<^verbatim>\<open>replace(/-+/g, '-')\<close>.\<close>

fun spacesToHyphen :: "string \<Rightarrow> string" where
  "spacesToHyphen [] = []"
| "spacesToHyphen [c] = (if is_space c then ''-'' else [c])"
| "spacesToHyphen (c # d # cs) =
     (if is_space c then (if is_space d then spacesToHyphen (d # cs) else CHR ''-'' # spacesToHyphen (d # cs))
      else c # spacesToHyphen (d # cs))"

fun collapseHyphens :: "string \<Rightarrow> string" where
  "collapseHyphens [] = []"
| "collapseHyphens [c] = [c]"
| "collapseHyphens (c # d # cs) =
     (if c = CHR ''-'' \<and> d = CHR ''-'' then collapseHyphens (d # cs)
      else c # collapseHyphens (d # cs))"

definition generateClassNameFromSelector :: "string \<Rightarrow> string" where
  "generateClassNameFromSelector selector =
     (if selector \<in> set commonTagSelectors then ''custom-styled-'' @ selector
      else ''scoped-style-'' @
           collapseHyphens (spacesToHyphen (trim
             (filter (\<lambda>c. is_word c \<or> is_space c \<or> c = CHR ''-'') (toLowerCase selector)))))"

definition isSimpleClass :: "string \<Rightarrow> bool" where
  "isSimpleClass selector =
     (startsWith selector ''.'' \<and> \<not> str_includes selector '' '' \<and> \<not> str_includes selector ''>'' \<and>
      \<not> str_includes selector '':'' \<and> \<not> str_includes selector ''['')"

definition newStyle :: "string \<Rightarrow> string \<Rightarrow> string \<Rightarrow> converter \<Rightarrow> converter" where
  "newStyle styleId name styleLess st =
     st\<lparr>styleIdMap := map_set (styleIdMap st) name styleId,
        styles := styles st @ [\<lparr>s_id = styleId, s_name = name, s_styleLess = styleLess\<rparr>],
        styleMap := map_set (styleMap st) styleId (length (styles st))\<rparr>"

text \<open>
  One round of \<^verbatim>\<open>parsedStyles.forEach((styleLess, selector) => ...)\<close>; the state is the
  converter and the list \<^verbatim>\<open>unusedCssRules\<close>.
\<close>

definition processStyle :: "converter \<times> string list \<Rightarrow> string \<times> string \<Rightarrow> converter \<times> string list" where
  "processStyle acc entry =
     (case acc of (st, unusedCssRules) \<Rightarrow>
      case entry of (selector, styleLess) \<Rightarrow>
        if isSimpleClass selector then
          (let className = drop 1 selector in
           if className \<in> set (usedClasses st) then
             (case uuidv4 st of (styleId, st') \<Rightarrow>
                (newStyle styleId className styleLess st', unusedCssRules))
           else (st, unusedCssRules @ [selector @ '' { '' @ styleLess @ '' }'']))
        else
          (let st1 = st\<lparr>complexRules := map_set (complexRules st) selector styleLess\<rparr>;
               generatedName = generateClassNameFromSelector selector;
               st2 = st1\<lparr>selectorToClassMap := map_set (selectorToClassMap st1) selector generatedName\<rparr>
           in case uuidv4 st2 of (styleId, st3) \<Rightarrow>
                (newStyle styleId generatedName styleLess st3, unusedCssRules)))"

section \<open>The tree walker\<close>

text \<open>Class-based style identifiers: \<^verbatim>\<open>el.classList.forEach\<close> in \<^verbatim>\<open>processElement\<close>.\<close>

definition classStyleIds :: "converter \<Rightarrow> dnode \<Rightarrow> string list" where
  "classStyleIds st el =
     concat (map (\<lambda>className. case map_get (styleIdMap st) className of
                                 None \<Rightarrow> []
                               | Some styleId \<Rightarrow> if styleId = [] then [] else [styleId])
                 (classList el))"

text \<open>
  One round of \<^verbatim>\<open>this.complexRules.forEach((styleLess, selector) => ...)\<close> for the element
  at path \<open>p\<close>; the state is \<^verbatim>\<open>classIds\<close> and the converter.
\<close>

definition applyComplexRule ::
  "host \<Rightarrow> nat list \<Rightarrow> string list \<times> converter \<Rightarrow> string \<times> string \<Rightarrow> string list \<times> converter" where
  "applyComplexRule h p acc rule =
     (case acc of (classIds, st) \<Rightarrow>
      case rule of (selector, styleLess) \<Rightarrow>
        (case el_matches h p selector of
           None \<Rightarrow> (classIds, st)
         | Some False \<Rightarrow> (classIds, st)
         | Some True \<Rightarrow>
             (case classIds of
                targetStyleId # others \<Rightarrow>
                  (let mergeKey = targetStyleId @ '':'' @ selector in
                   if mergeKey \<notin> set (processedMerges st) then
                     (case map_get (styleMap st) targetStyleId of
                        None \<Rightarrow> (classIds, st)
                      | Some r \<Rightarrow>
                          (classIds,
                           st\<lparr>styles := (styles st)
                                  [r := (styles st ! r)
                                     \<lparr>s_styleLess := s_styleLess (styles st ! r) @ '' '' @ styleLess\<rparr>],
                              processedMerges := processedMerges st @ [mergeKey]\<rparr>))
                   else (classIds, st))
              | [] \<Rightarrow>
                  (case map_get (selectorToClassMap st) selector of
                     None \<Rightarrow> (classIds, st)
                   | Some generatedName \<Rightarrow>
                       if generatedName = [] then (classIds, st)
                       else (case map_get (styleIdMap st) generatedName of
                               None \<Rightarrow> (classIds, st)
                             | Some styleId \<Rightarrow>
                                 if styleId \<noteq> [] \<and> styleId \<notin> set classIds
                                 then (classIds @ [styleId], st)
                                 else (classIds, st))))))"

definition resolveClassIds :: "host \<Rightarrow> nat list \<Rightarrow> dnode \<Rightarrow> converter \<Rightarrow> string list \<times> converter" where
  "resolveClassIds h p el st =
     foldl (applyComplexRule h p) (classStyleIds st el, st) (complexRules st)"

text \<open>Custom attributes: \<^verbatim>\<open>data-*\<close>, \<^verbatim>\<open>aria-*\<close> and every name outside \<^verbatim>\<open>STANDARD_ATTRS\<close>.\<close>

definition isCustomAttr :: "string \<Rightarrow> bool" where
  "isCustomAttr name =
     (let attrName = toLowerCase name in
      startsWith attrName ''data-'' \<or> startsWith attrName ''aria-'' \<or>
      attrName \<notin> set STANDARD_ATTRS)"

definition linkMode :: "string \<Rightarrow> string" where
  "linkMode href =
     (if startsWith href ''#'' then ''section''
      else if startsWith href ''mailto:'' then ''email''
      else if startsWith href ''tel:'' then ''phone''
      else ''external'')"

text \<open>
  The \<^verbatim>\<open>data\<close> object of a mapped element; \<open>assetId\<close> is the identifier drawn for an
  image.
\<close>

definition elementData :: "type_value \<Rightarrow> dnode \<Rightarrow> string \<Rightarrow> node_data" where
  "elementData ty el assetId =
     (let xattr = filter (\<lambda>a. isCustomAttr (fst a)) (attributes el);
          attr = (if ty = TypeName ''Image''
                  then [(''id'', []), (''src'', attr_or el ''src'' []), (''alt'', attr_or el ''alt'' []),
                        (''loading'', attr_or el ''loading'' ''lazy''),
                        (''width'', attr_or el ''width'' ''auto''),
                        (''height'', attr_or el ''height'' ''auto'')]
                  else [(''id'', attr_or el ''id'' [])]);
          ex = (if ty = TypeName ''Section'' then SectionGrid
                else if ty = TypeName ''Link''
                  then LinkData (linkMode (attr_or el ''href'' ''#'')) (attr_or el ''href'' ''#'')
                         (attr_or el ''target'' ''_self'')
                else if ty = TypeName ''Image'' then ImageData assetId
                else if ty = TypeName ''List'' then ListData
                else if ty = TypeName ''ListItem'' then ListItemData
                else NoExtra)
      in ElementData (tagName el) attr xattr ex)"

definition domData :: "dnode \<Rightarrow> node_data" where
  "domData el =
     (let attrs = filter (\<lambda>a. toLowerCase (fst a) \<noteq> ''class'') (attributes el)
      in DomData (tagName el) attrs (filter (\<lambda>a. isCustomAttr (fst a)) attrs))"

definition hasBlockWrapper :: "dnode \<Rightarrow> bool" where
  "hasBlockWrapper el =
     list_ex (\<lambda>child. is_element child \<and> tagName child = ''div'' \<and>
                       ''container'' \<in> set (classList child)) (childNodes el)"

text \<open>
  \<^verbatim>\<open>processElement\<close>, returning the identifier and the new state. The loops over
  \<^verbatim>\<open>el.childNodes\<close> are \<open>processIgnoredChildren\<close> (the loop of an ignored tag: element
  children only, an empty identifier is dropped) and \<open>processChildNodes\<close> (the loop of
  a kept element, of a section wrapper and of \<^verbatim>\<open>createDomNode\<close>: every identifier an
  element child returns is pushed, and a text child that is not blank becomes a text
  node). Both carry the index of the child and the identifiers collected so far.
\<close>

fun processElement :: "host \<Rightarrow> nat list \<Rightarrow> dnode \<Rightarrow> converter \<Rightarrow> string \<times> converter"
  and processIgnoredChildren ::
    "host \<Rightarrow> nat list \<Rightarrow> nat \<Rightarrow> dnode list \<Rightarrow> string list \<times> converter \<Rightarrow> string list \<times> converter"
  and processChildNodes ::
    "host \<Rightarrow> nat list \<Rightarrow> nat \<Rightarrow> dnode list \<Rightarrow> string list \<times> converter \<Rightarrow> string list \<times> converter"
  where
  "processElement h p (Element t a ks) st =
     (if t \<in> set IGNORED_TAGS then
        (case processIgnoredChildren h p 0 ks ([], st) of
           (childIds, st') \<Rightarrow> ((case childIds of [] \<Rightarrow> [] | c # cs \<Rightarrow> c), st'))
      else if t = ''script'' then
        (case createHtmlEmbed (outerHTML h (Element t a ks)) True st of
           (embedNode, st') \<Rightarrow> (n_id embedNode, pushNode embedNode st'))
      else if t = ''svg'' then
        (case createHtmlEmbed (outerHTML h (Element t a ks)) False st of
           (embedNode, st') \<Rightarrow> (n_id embedNode, pushNode embedNode st'))
      else
        (case resolveClassIds h p (Element t a ks) st of
           (classIds, st1) \<Rightarrow>
             (case tagType t of
                None \<Rightarrow>
                  (case uuidv4 st1 of
                     (i, st2) \<Rightarrow>
                       (case processChildNodes h p 0 ks ([], st2) of
                          (children, st3) \<Rightarrow>
                            (i, pushNode
                                  \<lparr>n_id = i, n_type = Some (TypeName ''DOM''), n_tag = Some ''div'',
                                   n_classes = Some classIds, n_children = Some children,
                                   n_data = Some (domData (Element t a ks)),
                                   n_text = None, n_v = None\<rparr> st3)))
              | Some ty \<Rightarrow>
                  (case uuidv4 st1 of
                     (i, st2) \<Rightarrow>
                       (case (if ty = TypeName ''Image'' then uuidv4 st2 else ([], st2)) of
                          (assetId, st3) \<Rightarrow>
                            (if ty = TypeName ''Section'' \<and> \<not> hasBlockWrapper (Element t a ks) \<and>
                                filter is_element ks \<noteq> []
                             then
                               (case uuidv4 st3 of
                                  (wrapperId, st4) \<Rightarrow>
                                    (case processChildNodes h p 0 ks ([], st4) of
                                       (children, st5) \<Rightarrow>
                                         (i, pushNode
                                               \<lparr>n_id = i, n_type = Some ty, n_tag = Some t,
                                                n_classes = Some classIds,
                                                n_children = Some [wrapperId],
                                                n_data = Some (elementData ty (Element t a ks) assetId),
                                                n_text = None, n_v = None\<rparr>
                                               (pushNode (blockNode wrapperId children) st5))))
                             else
                               (case processChildNodes h p 0 ks ([], st3) of
                                  (children, st4) \<Rightarrow>
                                    (i, pushNode
                                          \<lparr>n_id = i, n_type = Some ty, n_tag = Some t,
                                           n_classes = Some classIds, n_children = Some children,
                                           n_data = Some (elementData ty (Element t a ks) assetId),
                                           n_text = None, n_v = None\<rparr> st4))))))))"
| "processElement h p (TextNode s) st = ([], st)"
| "processElement h p (CommentNode c) st = ([], st)"
| "processIgnoredChildren h p i [] acc = acc"
| "processIgnoredChildren h p i (k # ks) acc =
     (case acc of (childIds, st) \<Rightarrow>
        if is_element k then
          (case processElement h (p @ [i]) k st of
             (childId, st') \<Rightarrow>
               processIgnoredChildren h p (Suc i) ks
                 (if childId \<noteq> [] then childIds @ [childId] else childIds, st'))
        else processIgnoredChildren h p (Suc i) ks (childIds, st))"
| "processChildNodes h p i [] acc = acc"
| "processChildNodes h p i (k # ks) acc =
     (case acc of (children, st) \<Rightarrow>
        (case k of
           Element t a cs \<Rightarrow>
             (case processElement h (p @ [i]) k st of
                (childId, st') \<Rightarrow> processChildNodes h p (Suc i) ks (children @ [childId], st'))
         | TextNode s \<Rightarrow>
             (if trim s \<noteq> [] then
                (case uuidv4 st of
                   (textId, st') \<Rightarrow>
                     processChildNodes h p (Suc i) ks
                       (children @ [textId], pushNode (textNode textId (trim s)) st'))
              else processChildNodes h p (Suc i) ks (children, st))
         | CommentNode c \<Rightarrow> processChildNodes h p (Suc i) ks (children, st)))"

section \<open>The graph finalizer\<close>

text \<open>
  \<^verbatim>\<open>reorderNodesWithRootFirst\<close>. The recursive closure \<^verbatim>\<open>addNodeAndChildren\<close> is
  written with the stack of identifiers still to visit: visiting an identifier puts its
  children in front of the stack, which is the order in which the recursion reaches
  them. The state is \<^verbatim>\<open>visited\<close> and \<^verbatim>\<open>result\<close>.
\<close>

definition nodeMapOf :: "WebflowNode list \<Rightarrow> WebflowNode jsmap" where
  "nodeMapOf ns = foldl (\<lambda>m n. map_set m (n_id n) n) [] ns"

definition childrenOf :: "WebflowNode \<Rightarrow> string list" where
  "childrenOf n = (case n_children n of None \<Rightarrow> [] | Some cs \<Rightarrow> cs)"

function addNodeAndChildren ::
  "WebflowNode jsmap \<Rightarrow> string list \<Rightarrow> string list \<times> WebflowNode list \<Rightarrow> string list \<times> WebflowNode list" where
  "addNodeAndChildren nodeMap [] acc = acc"
| "addNodeAndChildren nodeMap (i # stack) acc =
     (case acc of (visited, result) \<Rightarrow>
        if i \<in> set visited then addNodeAndChildren nodeMap stack (visited, result)
        else (case map_get nodeMap i of
                None \<Rightarrow> addNodeAndChildren nodeMap stack (i # visited, result)
              | Some node \<Rightarrow>
                  addNodeAndChildren nodeMap (childrenOf node @ stack) (i # visited, result @ [node])))"
  by pat_completeness auto
termination
proof (relation "measures [\<lambda>(m, stack, acc). card (fst ` set m - set (fst acc)),
                           \<lambda>(m, stack, acc). length stack]", goal_cases)
  case 1
  then show ?case by simp
next
  case (2 nodeMap i stack acc visited result)
  then show ?case by simp
next
  case (3 nodeMap i stack acc visited result)
  then have "i \<notin> fst ` set nodeMap"
    by (simp add: map_get_def map_of_eq_None_iff)
  then have "fst ` set nodeMap - insert i (set visited) = fst ` set nodeMap - set visited"
    by blast
  with 3 show ?case by auto
next
  case (4 nodeMap i stack acc visited result node)
  then have "i \<in> fst ` set nodeMap"
    by (metis map_get_def map_of_eq_None_iff option.distinct(1))
  with 4 have "card (fst ` set nodeMap - insert i (set visited)) < card (fst ` set nodeMap - set visited)"
    by (intro psubset_card_mono) auto
  with 4 show ?case by auto
qed

definition reorderNodesWithRootFirst :: "converter \<Rightarrow> string \<Rightarrow> WebflowNode list" where
  "reorderNodesWithRootFirst st rootId =
     (case addNodeAndChildren (nodeMapOf (nodes st)) [rootId] ([], []) of
        (visited, result) \<Rightarrow> result @ filter (\<lambda>node. n_id node \<notin> set visited) (nodes st))"

section \<open>The conversion\<close>

text \<open>The merge of an inline style block into \<^verbatim>\<open>parsedStyles\<close>.\<close>

definition mergeInlineStyle :: "string jsmap \<Rightarrow> string \<times> string \<Rightarrow> string jsmap" where
  "mergeInlineStyle parsedStyles entry =
     (case map_get parsedStyles (fst entry) of
        None \<Rightarrow> map_set parsedStyles (fst entry) (snd entry)
      | Some external \<Rightarrow> map_set parsedStyles (fst entry) (external @ '' '' @ snd entry))"

definition mergeStyleTag :: "string jsmap \<Rightarrow> dnode \<Rightarrow> string jsmap" where
  "mergeStyleTag parsedStyles styleTag =
     foldl mergeInlineStyle parsedStyles (parseCssToStyleLess (textContent styleTag))"

definition parsedStylesOf :: "document \<Rightarrow> string \<Rightarrow> string jsmap" where
  "parsedStylesOf d css = foldl mergeStyleTag (parseCssToStyleLess css) (querySelectorAll_style d)"

definition initialState :: converter where
  "initialState =
     \<lparr>nodes = [], styles = [], styleIdMap = [], usedClasses = [], complexRules = [],
      selectorToClassMap = [], styleMap = [], processedMerges = [], uuidCount = 0\<rparr>"

text \<open>
  The state and \<^verbatim>\<open>unusedCssRules\<close> when the styles are made, on the document whose style
  tags are already removed.
\<close>

definition stylesPhase :: "document \<Rightarrow> string jsmap \<Rightarrow> converter \<times> string list" where
  "stylesPhase d parsedStyles =
     foldl processStyle
       (initialState\<lparr>usedClasses := collectUsedClasses (doc_body d)\<rparr>, []) parsedStyles"

text \<open>
  \<^verbatim>\<open>combinedCss\<close>: the query for style tags runs on the document as it is at that
  line of \<^verbatim>\<open>convert\<close>.
\<close>

definition combinedCss :: "document \<Rightarrow> string \<Rightarrow> string" where
  "combinedCss d css = css @ [newline] @ join [newline] (map textContent (querySelectorAll_style d))"

text \<open>The loop over \<^verbatim>\<open>doc.body.children\<close> that fills \<^verbatim>\<open>topLevelChildren\<close>.\<close>

fun processTopLevel ::
  "host \<Rightarrow> nat \<Rightarrow> dnode list \<Rightarrow> string list \<times> converter \<Rightarrow> string list \<times> converter" where
  "processTopLevel h i [] acc = acc"
| "processTopLevel h i (k # ks) acc =
     (case acc of (topLevelChildren, st) \<Rightarrow>
        if is_element k then
          (case processElement h [i] k st of
             (childId, st') \<Rightarrow>
               processTopLevel h (Suc i) ks
                 (if childId \<noteq> [] then topLevelChildren @ [childId] else topLevelChildren, st'))
        else processTopLevel h (Suc i) ks (topLevelChildren, st))"

definition advancedCssParts :: "string \<Rightarrow> string list \<Rightarrow> string list" where
  "advancedCssParts advancedCss unusedCssRules =
     (if advancedCss \<noteq> [] then [advancedCss] else []) @
     (if unusedCssRules \<noteq> [] then [newline # ''/* Unused Classes */'', join [newline] unusedCssRules]
      else [])"

definition embedContent :: "string list \<Rightarrow> string" where
  "embedContent parts = ''<style>'' @ [newline] @ join [newline] parts @ [newline] @ ''</style>''"

text \<open>The custom embed, pushed and appended to \<^verbatim>\<open>topLevelChildren\<close> when there are parts.\<close>

definition addEmbed :: "string list \<Rightarrow> string list \<times> converter \<Rightarrow> string list \<times> converter" where
  "addEmbed parts acc =
     (case acc of (topLevelChildren, st) \<Rightarrow>
        if parts \<noteq> [] then
          (case createHtmlEmbed (embedContent parts) False st of
             (embedNode, st') \<Rightarrow> (topLevelChildren @ [n_id embedNode], pushNode embedNode st'))
        else (topLevelChildren, st))"

text \<open>The choice of the root: \<^verbatim>\<open>rootNodeId\<close> and the state.\<close>

definition chooseRoot :: "string list \<times> converter \<Rightarrow> string \<times> converter" where
  "chooseRoot acc =
     (case acc of (topLevelChildren, st) \<Rightarrow>
        (case topLevelChildren of
           [] \<Rightarrow> (case uuidv4 st of (emptyId, st') \<Rightarrow> (emptyId, pushNode (blockNode emptyId []) st'))
         | [only] \<Rightarrow> (only, st)
         | first # second # others \<Rightarrow>
             (case uuidv4 st of
                (wrapperId, st') \<Rightarrow> (wrapperId, pushNode (blockNode wrapperId topLevelChildren) st'))))"

text \<open>
  \<^verbatim>\<open>convert\<close> in its phases. \<open>walkTopLevel\<close> is \<^verbatim>\<open>topLevelChildren\<close> and the state
  behind the loop over the children of the body; \<open>relocatedCssParts\<close> is
  \<^verbatim>\<open>advancedCssParts\<close>; \<open>topLevel\<close> is \<^verbatim>\<open>topLevelChildren\<close> and the state at the
  line where the root is chosen.
\<close>

definition walkStart :: "document \<Rightarrow> string \<Rightarrow> converter \<times> string list" where
  "walkStart d css = stylesPhase (removeStyleTags d) (parsedStylesOf d css)"

definition walkTopLevel :: "host \<Rightarrow> document \<Rightarrow> string \<Rightarrow> string list \<times> converter" where
  "walkTopLevel h d css =
     processTopLevel h 0 (doc_body_nodes (removeStyleTags d)) ([], fst (walkStart d css))"

definition relocatedCssParts :: "document \<Rightarrow> string \<Rightarrow> string list" where
  "relocatedCssParts d css =
     advancedCssParts (extractAdvancedCss (combinedCss (removeStyleTags d) css))
       (snd (walkStart d css))"

definition topLevel :: "host \<Rightarrow> document \<Rightarrow> string \<Rightarrow> string list \<times> converter" where
  "topLevel h d css = addEmbed (relocatedCssParts d css) (walkTopLevel h d css)"

definition convert :: "host \<Rightarrow> document \<Rightarrow> string \<Rightarrow> WebflowClipboardData" where
  "convert h d css =
     (case chooseRoot (topLevel h d css) of
        (rootNodeId, st) \<Rightarrow>
          \<lparr>payload_nodes = reorderNodesWithRootFirst st rootNodeId, payload_styles = styles st\<rparr>)"

section \<open>Notions used in the statements\<close>

text \<open>
  An element is kept when the walk hands an identifier back for it: it is not an ignored
  tag, or it is one and some element child of it is kept.
\<close>

fun kept :: "dnode \<Rightarrow> bool"
  and keptAny :: "dnode list \<Rightarrow> bool" where
  "kept (Element t a ks) = (t \<notin> set IGNORED_TAGS \<or> keptAny ks)"
| "kept (TextNode s) = False"
| "kept (CommentNode c) = False"
| "keptAny [] = False"
| "keptAny (k # ks) = (kept k \<or> keptAny ks)"

text \<open>The node list of \<open>st\<close> is the node list of \<open>st0\<close> with nodes pushed behind it.\<close>

definition grows :: "converter \<Rightarrow> converter \<Rightarrow> bool" where
  "grows st0 st = (\<exists>ns. nodes st = nodes st0 @ ns)"

text \<open>
  The merge key of the source is the style identifier, a colon and the selector.
  \<open>mergedSelectors i keys\<close> reads the selectors merged into style \<open>i\<close> off the set
  \<^verbatim>\<open>processedMerges\<close>, in the order of the merges; \<open>mergedText\<close> is what these merges
  appended, a space and the declaration string of the selector each.
\<close>

definition mergedSelectors :: "string \<Rightarrow> string list \<Rightarrow> string list" where
  "mergedSelectors styleId keys =
     map (drop (Suc (length styleId))) (filter (\<lambda>k. startsWith k (styleId @ '':'')) keys)"

definition mergedText :: "string jsmap \<Rightarrow> string list \<Rightarrow> string" where
  "mergedText rules sels =
     concat (map (\<lambda>sel. '' '' @ (case map_get rules sel of None \<Rightarrow> [] | Some decl \<Rightarrow> decl)) sels)"

text \<open>
  Invariants of the proofs: \<open>styleRefsOk\<close>, \<^verbatim>\<open>styleMap\<close> points at the style with that
  identifier; \<open>stylesReady\<close>, the state when the styles are made; \<open>mergedOnce st0 st\<close>,
  the state \<open>st\<close> of a walk that began in \<open>st0\<close>.
\<close>

definition styleRefsOk :: "converter \<Rightarrow> bool" where
  "styleRefsOk st =
     (\<forall>i r. map_get (styleMap st) i = Some r \<longrightarrow> r < length (styles st) \<and> s_id (styles st ! r) = i)"

definition stylesReady :: "converter \<Rightarrow> bool" where
  "stylesReady st =
     (processedMerges st = [] \<and> map s_id (styles st) = map uuid_text [0..<uuidCount st] \<and>
      styleRefsOk st \<and> distinct (map fst (complexRules st)))"

definition mergedOnce :: "converter \<Rightarrow> converter \<Rightarrow> bool" where
  "mergedOnce st0 st =
     (styleMap st = styleMap st0 \<and> complexRules st = complexRules st0 \<and>
      map s_id (styles st) = map s_id (styles st0) \<and>
      map s_name (styles st) = map s_name (styles st0) \<and>
      distinct (processedMerges st) \<and>
      (\<forall>r<length (styles st0).
         s_styleLess (styles st ! r) =
           s_styleLess (styles st0 ! r) @
           mergedText (complexRules st0)
             (mergedSelectors (s_id (styles st0 ! r)) (processedMerges st))))"

text \<open>
  An entry of the normalized stylesheet makes a style unless it is a simple class
  selector whose class is not used; \<open>styleNameOf\<close> is the name of that style and
  \<open>unusedRuleText\<close> the text under which an entry without a style is relocated.
  \<open>attachedClasses\<close> are the class tokens of all elements of a tree.
\<close>

definition makesStyle :: "string list \<Rightarrow> string \<times> string \<Rightarrow> bool" where
  "makesStyle used e = (if isSimpleClass (fst e) then drop 1 (fst e) \<in> set used else True)"

definition styleNameOf :: "string \<times> string \<Rightarrow> string" where
  "styleNameOf e =
     (if isSimpleClass (fst e) then drop 1 (fst e) else generateClassNameFromSelector (fst e))"

definition unusedRuleText :: "string \<times> string \<Rightarrow> string" where
  "unusedRuleText e = fst e @ '' { '' @ snd e @ '' }''"

fun attachedClasses :: "dnode \<Rightarrow> string list"
  and attachedClassesOf :: "dnode list \<Rightarrow> string list" where
  "attachedClasses (Element t a ks) = classList (Element t a ks) @ attachedClassesOf ks"
| "attachedClasses (TextNode s) = []"
| "attachedClasses (CommentNode c) = []"
| "attachedClassesOf [] = []"
| "attachedClassesOf (k # ks) = attachedClasses k @ attachedClassesOf ks"

subsection \<open>Example inputs\<close>

text \<open>
  The example pages hold no script and no svg element. \<open>exampleHost\<close> is a browser in
  which no selector matches; \<open>descendantHost\<close> is the browser on \<open>descendantDoc\<close>,
  \<^verbatim>\<open><div class="a"><p><span class="b">x</span></p></div>\<close>, for the selectors
  \<^verbatim>\<open>.a .b\<close> (the span matches) and \<^verbatim>\<open>.a > .b\<close> (nothing matches).
\<close>

definition exampleHost :: host where
  "exampleHost = \<lparr>el_matches = (\<lambda>p selector. Some False), outerHTML = (\<lambda>el. [])\<rparr>"

definition bodyOf :: "dnode list \<Rightarrow> document" where
  "bodyOf ks = \<lparr>doc_head = [], doc_body_tag = ''body'', doc_body_attrs = [], doc_body_nodes = ks\<rparr>"

definition descendantHost :: host where
  "descendantHost =
     \<lparr>el_matches = (\<lambda>p selector. Some (p = [0, 0, 0] \<and> selector = ''.a .b'')),
      outerHTML = (\<lambda>el. [])\<rparr>"

definition descendantDoc :: document where
  "descendantDoc =
     bodyOf [Element ''div'' [(''class'', ''a'')]
               [Element ''p'' [] [Element ''span'' [(''class'', ''b'')] [TextNode ''x'']]]]"

text \<open>\<^verbatim>\<open><div></div> <br><p></p>\<close>: two kept elements, a text node and an ignored tag.\<close>

definition mixedDoc :: document where
  "mixedDoc =
     bodyOf [Element ''div'' [] [], TextNode '' '', Element ''br'' [] [], Element ''p'' [] []]"

text \<open>
  \<^verbatim>\<open><table><tr><td><p>Text</p></td></tr></table>\<close> as the parser builds it, and the
  same table with two cells.
\<close>

definition cellA :: dnode where
  "cellA = Element ''td'' [] [Element ''p'' [] [TextNode ''A'']]"

definition cellB :: dnode where
  "cellB = Element ''td'' [] [Element ''p'' [] [TextNode ''B'']]"

definition oneCellDoc :: document where
  "oneCellDoc =
     bodyOf [Element ''table'' []
       [Element ''tbody'' []
         [Element ''tr'' [] [Element ''td'' [] [Element ''p'' [] [TextNode ''Text'']]]]]]"

definition twoCellsDoc :: document where
  "twoCellsDoc =
     bodyOf [Element ''table'' [] [Element ''tbody'' [] [Element ''tr'' [] [cellA, cellB]]]]"

text \<open>
  \<^verbatim>\<open><style>@media (max-width: 600px) { .a { color: red; } }</style><div class="a"></div>\<close>:
  the parser puts the style element into the head.
\<close>

definition inlineMediaDoc :: document where
  "inlineMediaDoc =
     \<lparr>doc_head =
        [Element ''style'' [] [TextNode ''@media (max-width: 600px) { .a { color: red; } }'']],
      doc_body_tag = ''body'',
      doc_body_attrs = [],
      doc_body_nodes = [Element ''div'' [(''class'', ''a'')] []]\<rparr>"

text \<open>
  \<^verbatim>\<open><div class="wrap"><div class="card">A</div><div class="card">B</div></div>\<close> and
  the browser on it for the selector \<^verbatim>\<open>.wrap .card\<close>: both cards match.
\<close>

definition cardsDoc :: document where
  "cardsDoc =
     bodyOf [Element ''div'' [(''class'', ''wrap'')]
               [Element ''div'' [(''class'', ''card'')] [TextNode ''A''],
                Element ''div'' [(''class'', ''card'')] [TextNode ''B'']]]"

definition cardsHost :: host where
  "cardsHost =
     \<lparr>el_matches = (\<lambda>p selector. Some (selector = ''.wrap .card'' \<and> (p = [0, 0] \<or> p = [0, 1]))),
      outerHTML = (\<lambda>el. [])\<rparr>"

definition cardsCss :: string where
  "cardsCss = ''.card { color: red; } .wrap .card { color: blue; }''"

section \<open>Facts about strings\<close>

lemma str_includes_iff: "str_includes s m \<longleftrightarrow> (\<exists>a b. s = a @ m @ b)"
proof (induction s)
  case Nil
  then show ?case by auto
next
  case (Cons c cs)
  show ?case
  proof
    assume "str_includes (c # cs) m"
    then consider "startsWith (c # cs) m" | "str_includes cs m" by auto
    then show "\<exists>a b. c # cs = a @ m @ b"
    proof cases
      case 1
      then have "c # cs = [] @ m @ drop (length m) (c # cs)"
        unfolding startsWith_def by (metis append_Nil append_take_drop_id)
      then show ?thesis by blast
    next
      case 2
      then obtain a b where "cs = a @ m @ b" using Cons.IH by blast
      then have "c # cs = (c # a) @ m @ b" by simp
      then show ?thesis by blast
    qed
  next
    assume "\<exists>a b. c # cs = a @ m @ b"
    then obtain a b where ab: "c # cs = a @ m @ b" by blast
    show "str_includes (c # cs) m"
    proof (cases a)
      case Nil
      then have "startsWith (c # cs) m" using ab by (simp add: startsWith_def)
      then show ?thesis by simp
    next
      case (Cons a0 as)
      then have "cs = as @ m @ b" using ab by simp
      then show ?thesis using Cons.IH by auto
    qed
  qed
qed

lemma dropWhile_keep: "m \<noteq> [] \<Longrightarrow> \<not> P (hd m) \<Longrightarrow> \<exists>a'. dropWhile P (a @ m @ b) = a' @ m @ b"
proof (induction a)
  case Nil
  then show ?case by (cases m) auto
next
  case (Cons x a)
  then show ?case by (cases "P x") (auto intro: exI[of _ "x # a"])
qed

lemma trim_keeps:
  assumes "m \<noteq> []" "\<not> is_space (hd m)" "\<not> is_space (last m)" "str_includes s m"
  shows "str_includes (trim s) m"
proof -
  obtain a b where "s = a @ m @ b" using assms(4) str_includes_iff by blast
  then obtain a' where 1: "dropWhile is_space s = a' @ m @ b"
    using dropWhile_keep[where P=is_space and m=m, OF assms(1,2)] by blast
  have "rev m \<noteq> []" "\<not> is_space (hd (rev m))" using assms(1,3) by (auto simp: hd_rev)
  from dropWhile_keep[where P=is_space and m="rev m" and a="rev b" and b="rev a'", OF this]
  obtain b' where "dropWhile is_space (rev b @ rev m @ rev a') = b' @ rev m @ rev a'" by blast
  then have "trim s = a' @ m @ rev b'" by (simp add: trim_def 1)
  then show ?thesis using str_includes_iff by blast
qed

lemma dropWhile_idem: "dropWhile P (dropWhile P xs) = dropWhile P xs"
  by (induction xs) auto

lemma trim_trim: "trim (trim s) = trim s"
proof -
  define t where "t = dropWhile is_space s"
  define u where "u = dropWhile is_space (rev t)"
  have tu: "trim s = rev u" by (simp add: trim_def t_def u_def)
  have "dropWhile is_space (rev u) = rev u"
  proof (cases "t = []")
    case True
    then show ?thesis by (simp add: u_def)
  next
    case False
    then have h: "\<not> is_space (hd t)" unfolding t_def by (metis hd_dropWhile)
    have "last (rev t) = hd t" using False by (simp add: last_rev)
    then have "\<not> is_space (last (rev t))" using h by simp
    have ht: "hd t \<in> set (rev t)" using False by simp
    have un: "u \<noteq> []" unfolding u_def using h ht by (auto simp: dropWhile_eq_Nil_conv)
    have "last u = last (rev t)" unfolding u_def
      using dropWhile_last[of "hd t" "rev t" is_space] h ht by simp
    then have "last u = hd t" using False by (simp add: last_rev)
    then have "\<not> is_space (hd (rev u))" using h un by (simp add: hd_rev)
    then show ?thesis using un by (cases "rev u") auto
  qed
  then have "trim (rev u) = rev (dropWhile is_space u)" by (simp add: trim_def)
  also have "\<dots> = rev u" by (simp add: u_def dropWhile_idem)
  finally show ?thesis by (simp add: tu)
qed

lemma marker_survives_trim:
  "str_includes v ''var(--'' \<Longrightarrow> str_includes (trim v) ''var(--''"
  "str_includes v ''calc('' \<Longrightarrow> str_includes (trim v) ''calc(''"
  "str_includes v ''clamp('' \<Longrightarrow> str_includes (trim v) ''clamp(''"
  "str_includes v ''min('' \<Longrightarrow> str_includes (trim v) ''min(''"
  "str_includes v ''max('' \<Longrightarrow> str_includes (trim v) ''max(''"
  by (rule trim_keeps; simp add: is_space_def)+

lemma wrap_marker:
  assumes "str_includes v ''var(--'' \<or> str_includes v ''calc('' \<or> str_includes v ''clamp('' \<or>
           str_includes v ''min('' \<or> str_includes v ''max(''"
  shows "wrapCssVariables v = ''@raw<|'' @ trim v @ ''|>''"
  using assms marker_survives_trim[of v]
  unfolding wrapCssVariables_def Let_def by presburger

section \<open>Shorthand expansion\<close>

text \<open>
  Claim C5. The normalizer expands \<^verbatim>\<open>padding: 10px 20px\<close> to the four sides (top and
  bottom 10px, right and left 20px) and \<^verbatim>\<open>border-radius: 4px 8px\<close> to the four corners
  (top-left and bottom-right 4px, top-right and bottom-left 8px), in
  \<^verbatim>\<open>expandShorthand\<close> and in the declaration string of a whole rule.
\<close>

theorem shorthand_expansion:
  "expandShorthand ''padding'' ''10px 20px'' =
     ''padding-top: 10px; padding-right: 20px; padding-bottom: 10px; padding-left: 20px;'' \<and>
   expandShorthand ''border-radius'' ''4px 8px'' =
     ''border-top-left-radius: 4px; border-top-right-radius: 8px; border-bottom-right-radius: 4px; border-bottom-left-radius: 8px;'' \<and>
   parseCssToStyleLess ''.box { padding: 10px 20px; }'' =
     [(''.box'', ''padding-top: 10px; padding-right: 20px; padding-bottom: 10px; padding-left: 20px;'')] \<and>
   parseCssToStyleLess ''.box { border-radius: 4px 8px; }'' =
     [(''.box'', ''border-top-left-radius: 4px; border-top-right-radius: 8px; border-bottom-right-radius: 4px; border-bottom-left-radius: 8px;'')]"
  by code_simp

section \<open>Opaque values\<close>

text \<open>
  Claim C6. A declaration, as the normalizer reads it, is a piece \<open>p\<close> of a rule body
  between semicolons; its value text is the text behind its first colon. For every
  piece that has a colon and whose value text contains one of the markers
  \<^verbatim>\<open>var(--\<close>, \<^verbatim>\<open>calc(\<close>, \<^verbatim>\<open>clamp(\<close>, \<^verbatim>\<open>min(\<close>, \<^verbatim>\<open>max(\<close>, the normalizer adds
  the property name with the whole trimmed value inside the raw-value marker and
  nothing else: no shorthand is expanded, whatever the property name.
\<close>

theorem opaque_value_wrapped:
  assumes "indexOf (trim p) (CHR '':'') = Some i"
    and "str_includes (drop (i + 1) (trim p)) ''var(--'' \<or>
         str_includes (drop (i + 1) (trim p)) ''calc('' \<or>
         str_includes (drop (i + 1) (trim p)) ''clamp('' \<or>
         str_includes (drop (i + 1) (trim p)) ''min('' \<or>
         str_includes (drop (i + 1) (trim p)) ''max(''"
  shows "declarationText p =
           '' '' @ trim (take i (trim p)) @ '': @raw<|'' @ trim (drop (i + 1) (trim p)) @ ''|>;''"
proof -
  let ?v = "drop (i + 1) (trim p)"
  have incl: "str_includes (trim ?v) ''var(--'' \<or> str_includes (trim ?v) ''calc('' \<or>
        str_includes (trim ?v) ''clamp('' \<or> str_includes (trim ?v) ''min('' \<or>
        str_includes (trim ?v) ''max(''"
    using assms(2) by (metis marker_survives_trim)
  have w: "wrapCssVariables (trim ?v) = ''@raw<|'' @ trim ?v @ ''|>''"
    using wrap_marker[OF incl] by (simp add: trim_trim)
  have ne: "trim p \<noteq> []" using assms(1) by auto
  show ?thesis
    unfolding declarationText_def Let_def using ne assms(1) w
    by (simp add: startsWith_def)
qed

theorem opaque_value_wrapped_witness:
  "indexOf (trim ''width: calc(100% - 20px)'') (CHR '':'') = Some 5 \<and>
   str_includes (drop (5 + 1) (trim ''width: calc(100% - 20px)'')) ''calc('' \<and>
   declarationText ''width: calc(100% - 20px)'' = '' width: @raw<|calc(100% - 20px)|>;'' \<and>
   parseCssToStyleLess ''.box { width: calc(100% - 20px); }'' =
     [(''.box'', ''width: @raw<|calc(100% - 20px)|>;'')] \<and>
   parseCssToStyleLess ''.box { padding: calc(1px + 2px) 4px; }'' =
     [(''.box'', ''padding: @raw<|calc(1px + 2px) 4px|>;'')]"
proof -
  have a: "indexOf (trim ''width: calc(100% - 20px)'') (CHR '':'') = Some 5" by code_simp
  have b: "str_includes (drop (5 + 1) (trim ''width: calc(100% - 20px)'')) ''calc(''" by code_simp
  have t: "'' '' @ trim (take 5 (trim ''width: calc(100% - 20px)'')) @ '': @raw<|'' @
           trim (drop (5 + 1) (trim ''width: calc(100% - 20px)'')) @ ''|>;'' =
           '' width: @raw<|calc(100% - 20px)|>;''" by code_simp
  have c: "declarationText ''width: calc(100% - 20px)'' = '' width: @raw<|calc(100% - 20px)|>;''"
    using opaque_value_wrapped[OF a] b t by presburger
  have d: "parseCssToStyleLess ''.box { width: calc(100% - 20px); }'' =
     [(''.box'', ''width: @raw<|calc(100% - 20px)|>;'')]" by code_simp
  have e: "parseCssToStyleLess ''.box { padding: calc(1px + 2px) 4px; }'' =
     [(''.box'', ''padding: @raw<|calc(1px + 2px) 4px|>;'')]" by code_simp
  show ?thesis using a b c d e by blast
qed

section \<open>Facts about the walk\<close>

lemma snd_createHtmlEmbed: "snd (createHtmlEmbed c b st) = snd (uuidv4 st)"
  by (simp add: createHtmlEmbed_def split: prod.splits)

lemma walk_preserves:
  fixes P :: "converter \<Rightarrow> bool"
  assumes u: "\<And>st. P st \<Longrightarrow> P (snd (uuidv4 st))"
      and n: "\<And>st nd. P st \<Longrightarrow> P (pushNode nd st)"
      and r: "\<And>h st p el. P st \<Longrightarrow> P (snd (resolveClassIds h p el st))"
  shows "P st \<Longrightarrow> P (snd (processElement h p el st))"
    and "P (snd acc) \<Longrightarrow> P (snd (processIgnoredChildren h p i ks acc))"
    and "P (snd acc2) \<Longrightarrow> P (snd (processChildNodes h p i ks2 acc2))"
proof (induction h p el st and h p i ks acc and h p i ks2 acc2
       rule: processElement_processIgnoredChildren_processChildNodes.induct)
  case (1 h p t a ks st)
  show ?case
  proof (cases "t \<in> set IGNORED_TAGS")
    case True
    with 1(1)[OF True] 1(5) show ?thesis by (auto split: prod.splits)
  next
    case ni: False
    show ?thesis
    proof (cases "t = ''script'' \<or> t = ''svg''")
      case True
      obtain e st' where ce: "createHtmlEmbed (outerHTML h (Element t a ks)) (t = ''script'') st = (e, st')"
        by (cases "createHtmlEmbed (outerHTML h (Element t a ks)) (t = ''script'') st")
      have "st' = snd (uuidv4 st)" using snd_createHtmlEmbed[of "outerHTML h (Element t a ks)" "t = ''script''" st] ce by simp
      then have "P (pushNode e st')" using u[OF 1(5)] by (simp add: n)
      then show ?thesis using ni True ce by auto
    next
      case ns: False
      obtain classIds st1 where rc: "resolveClassIds h p (Element t a ks) st = (classIds, st1)"
        by (cases "resolveClassIds h p (Element t a ks) st")
      have p1: "P st1" using r[OF 1(5), of h p "Element t a ks"] rc by simp
      obtain i st2 where u1: "uuidv4 st1 = (i, st2)" by (cases "uuidv4 st1")
      have p2: "P st2" using u[OF p1] u1 by simp
      show ?thesis
      proof (cases "tagType t")
        case None
        obtain children st3 where pc: "processChildNodes h p 0 ks ([], st2) = (children, st3)"
          by (cases "processChildNodes h p 0 ks ([], st2)")
        have "P st3"
          using 1(2)[OF ni _ _ rc[symmetric] None u1[symmetric]] ns p2 pc by simp
        then show ?thesis using ni ns rc None u1 pc by (simp add: n)
      next
        case (Some ty)
        obtain assetId st3 where u2: "(if ty = TypeName ''Image'' then uuidv4 st2 else ([], st2)) = (assetId, st3)"
          by (cases "(if ty = TypeName ''Image'' then uuidv4 st2 else ([], st2))")
        have p3: "P st3" using u2 p2 u[OF p2] by (auto split: if_splits)
        show ?thesis
        proof (cases "ty = TypeName ''Section'' \<and> \<not> hasBlockWrapper (Element t a ks) \<and> filter is_element ks \<noteq> []")
          case True
          obtain wrapperId st4 where u3: "uuidv4 st3 = (wrapperId, st4)" by (cases "uuidv4 st3")
          have p4: "P st4" using u[OF p3] u3 by simp
          obtain children st5 where pc: "processChildNodes h p 0 ks ([], st4) = (children, st5)"
            by (cases "processChildNodes h p 0 ks ([], st4)")
          have "P st5"
            using 1(3)[OF ni _ _ rc[symmetric] Some u1[symmetric] u2[symmetric] True u3[symmetric]] ns p4 pc
            by simp
          then show ?thesis using ni ns rc Some u1 u2 True u3 pc by (auto simp: n)
        next
          case False
          obtain children st4 where pc: "processChildNodes h p 0 ks ([], st3) = (children, st4)"
            by (cases "processChildNodes h p 0 ks ([], st3)")
          have "P st4"
            using 1(4)[OF ni _ _ rc[symmetric] Some u1[symmetric] u2[symmetric] False] ns p3 pc
            by simp
          then show ?thesis using ni ns rc Some u1 u2 False pc by (auto simp: n)
        qed
      qed
    qed
  qed
next
  case (2 h p s st)
  then show ?case by simp
next
  case (3 h p st)
  then show ?case by simp
next
  case (4 h p i acc)
  then show ?case by simp
next
  case (5 h p i k ks acc)
  obtain ids st where acc: "acc = (ids, st)" by (cases acc)
  show ?case
  proof (cases "is_element k")
    case True
    obtain c st' where pe: "processElement h (p @ [i]) k st = (c, st')"
      by (cases "processElement h (p @ [i]) k st")
    have "P st'" using 5(1)[OF acc[symmetric] True] 5(4) acc pe by simp
    then show ?thesis using 5(2)[OF acc[symmetric] True pe[symmetric]] acc True pe by simp
  next
    case False
    then show ?thesis using 5(3)[OF acc[symmetric] False] 5(4) acc by simp
  qed
next
  case (6 h p i acc)
  then show ?case by simp
next
  case (7 h p i k ks acc)
  obtain ids st where acc: "acc = (ids, st)" by (cases acc)
  show ?case
  proof (cases k)
    case (Element t a cs)
    obtain c st' where pe: "processElement h (p @ [i]) k st = (c, st')"
      by (cases "processElement h (p @ [i]) k st")
    have "P st'" using 7(1)[OF acc[symmetric] Element] 7(6) acc pe by simp
    then show ?thesis using 7(2)[OF acc[symmetric] Element pe[symmetric]] acc Element pe by simp
  next
    case (TextNode s)
    show ?thesis
    proof (cases "trim s \<noteq> []")
      case True
      obtain ti st' where u1: "uuidv4 st = (ti, st')" by (cases "uuidv4 st")
      have "P (pushNode (textNode ti (trim s)) st')" using u[of st] 7(6) acc u1 by (simp add: n)
      then show ?thesis using 7(3)[OF acc[symmetric] TextNode True u1[symmetric]] acc TextNode True u1 by simp
    next
      case False
      then show ?thesis using 7(4)[OF acc[symmetric] TextNode False] 7(6) acc TextNode by simp
    qed
  next
    case (CommentNode c)
    then show ?thesis using 7(5)[OF acc[symmetric] CommentNode] 7(6) acc by simp
  qed
qed

lemma uuid_text_nonempty: "uuid_text n \<noteq> []"
  by (simp add: uuid_text_def)


lemma fst_uuidv4: "fst (uuidv4 st) = uuid_text (uuidCount st)"
  by (simp add: uuidv4_def)

lemma nodes_uuidv4: "nodes (snd (uuidv4 st)) = nodes st"
  by (simp add: uuidv4_def)

lemma nodes_pushNode: "nodes (pushNode n st) = nodes st @ [n]"
  by (simp add: pushNode_def)

text \<open>A kept element returns the identifier of the node it pushes last.\<close>

lemma kept_element_result:
  assumes "t \<notin> set IGNORED_TAGS" and "processElement h p (Element t a ks) st = (r, st')"
  shows "r \<noteq> [] \<and> nodes st' \<noteq> [] \<and> n_id (last (nodes st')) = r"
  using assms
  by (auto simp: createHtmlEmbed_def uuidv4_def pushNode_def uuid_text_nonempty
           split: prod.splits option.splits if_splits)


lemma applyComplexRule_nodes: "nodes (snd (applyComplexRule h p acc rule)) = nodes (snd acc)"
  by (auto simp: applyComplexRule_def Let_def split: prod.splits option.splits bool.splits list.splits)

lemma foldl_applyComplexRule_nodes:
  "nodes (snd (foldl (applyComplexRule h p) acc rs)) = nodes (snd acc)"
  by (induction rs arbitrary: acc) (simp_all add: applyComplexRule_nodes)

lemma resolveClassIds_nodes: "nodes (snd (resolveClassIds h p el st)) = nodes st"
  by (simp add: resolveClassIds_def foldl_applyComplexRule_nodes)

lemma grows_step:
  "grows st0 st \<Longrightarrow> grows st0 (snd (uuidv4 st))"
  "grows st0 st \<Longrightarrow> grows st0 (pushNode nd st)"
  "grows st0 st \<Longrightarrow> grows st0 (snd (resolveClassIds h p el st))"
  by (auto simp: grows_def nodes_uuidv4 nodes_pushNode resolveClassIds_nodes)

lemma grows_walk:
  "grows st0 st \<Longrightarrow> grows st0 (snd (processElement h p el st))"
  "grows st0 (snd acc) \<Longrightarrow> grows st0 (snd (processIgnoredChildren h p i ks acc))"
  "grows st0 (snd acc2) \<Longrightarrow> grows st0 (snd (processChildNodes h p i ks2 acc2))"
  using walk_preserves[where P="grows st0", OF grows_step] by blast+

lemma grows_refl: "grows st st"
  by (simp add: grows_def)

lemma grows_ids: "grows st st' \<Longrightarrow> x \<in> n_id ` set (nodes st) \<Longrightarrow> x \<in> n_id ` set (nodes st')"
  by (auto simp: grows_def)

text \<open>Every identifier that comes back from the walk is empty or names a pushed node.\<close>

lemma returned_ids:
  "fst (processElement h p el st) = [] \<or>
     fst (processElement h p el st) \<in> n_id ` set (nodes (snd (processElement h p el st)))"
  "set (fst acc) \<subseteq> n_id ` set (nodes (snd acc)) \<Longrightarrow>
     set (fst (processIgnoredChildren h p i ks acc)) \<subseteq>
       n_id ` set (nodes (snd (processIgnoredChildren h p i ks acc)))"
  "processChildNodes h p i ks2 acc2 = processChildNodes h p i ks2 acc2"
proof (induction h p el st and h p i ks acc and h p i ks2 acc2
       rule: processElement_processIgnoredChildren_processChildNodes.induct)
  case (1 h p t a ks st)
  show ?case
  proof (cases "t \<in> set IGNORED_TAGS")
    case True
    obtain ids st' where pi: "processIgnoredChildren h p 0 ks ([], st) = (ids, st')"
      by (cases "processIgnoredChildren h p 0 ks ([], st)")
    with 1(1)[OF True] have "set ids \<subseteq> n_id ` set (nodes st')" by simp
    then show ?thesis using True pi by (cases ids) auto
  next
    case False
    obtain r st' where pe: "processElement h p (Element t a ks) st = (r, st')"
      by (cases "processElement h p (Element t a ks) st")
    from kept_element_result[OF False pe] have "r \<in> n_id ` set (nodes st')"
      by (metis image_eqI last_in_set)
    then show ?thesis using pe by simp
  qed
next
  case (5 h p i k ks acc)
  obtain ids st where acc: "acc = (ids, st)" by (cases acc)
  show ?case
  proof (cases "is_element k")
    case True
    obtain c st' where pe: "processElement h (p @ [i]) k st = (c, st')"
      by (cases "processElement h (p @ [i]) k st")
    have g: "grows st st'" using grows_walk(1)[OF grows_refl, of st h "p @ [i]" k] pe by simp
    have c: "c = [] \<or> c \<in> n_id ` set (nodes st')"
      using 5(1)[OF acc[symmetric] True] pe by simp
    have "set ids \<subseteq> n_id ` set (nodes st')" using 5(4) acc grows_ids[OF g] by auto
    with c have "set (if c \<noteq> [] then ids @ [c] else ids) \<subseteq> n_id ` set (nodes st')" by auto
    then show ?thesis using 5(2)[OF acc[symmetric] True pe[symmetric]] acc True pe by simp
  next
    case False
    then show ?thesis using 5(3)[OF acc[symmetric] False] 5(4) acc by simp
  qed
qed simp_all


lemma processTopLevel_ids:
  "set (fst acc) \<subseteq> n_id ` set (nodes (snd acc)) \<Longrightarrow>
     set (fst (processTopLevel h i ks acc)) \<subseteq> n_id ` set (nodes (snd (processTopLevel h i ks acc)))"
proof (induction h i ks acc rule: processTopLevel.induct)
  case (1 h i acc)
  then show ?case by simp
next
  case (2 h i k ks acc)
  obtain ids st where acc: "acc = (ids, st)" by (cases acc)
  show ?case
  proof (cases "is_element k")
    case True
    obtain c st' where pe: "processElement h [i] k st = (c, st')"
      by (cases "processElement h [i] k st")
    have g: "grows st st'" using grows_walk(1)[OF grows_refl, of st h "[i]" k] pe by simp
    have c: "c = [] \<or> c \<in> n_id ` set (nodes st')"
      using returned_ids(1)[of h "[i]" k st] pe by simp
    have "set ids \<subseteq> n_id ` set (nodes st')" using 2(3) acc grows_ids[OF g] by auto
    with c have "set (if c \<noteq> [] then ids @ [c] else ids) \<subseteq> n_id ` set (nodes st')" by auto
    then show ?thesis using 2(1)[OF acc[symmetric] True pe[symmetric]] acc True pe by simp
  next
    case False
    then show ?thesis using 2(2)[OF acc[symmetric] False] 2(3) acc by simp
  qed
qed

lemma addEmbed_ids:
  "set (fst acc) \<subseteq> n_id ` set (nodes (snd acc)) \<Longrightarrow>
     set (fst (addEmbed parts acc)) \<subseteq> n_id ` set (nodes (snd (addEmbed parts acc)))"
  by (cases acc) (auto simp: addEmbed_def createHtmlEmbed_def uuidv4_def pushNode_def)

lemma topLevel_ids:
  "set (fst (topLevel h d css)) \<subseteq> n_id ` set (nodes (snd (topLevel h d css)))"
  unfolding topLevel_def walkTopLevel_def
  by (rule addEmbed_ids, rule processTopLevel_ids) simp

lemma map_get_map_set: "map_get (map_set m k v) k' = (if k' = k then Some v else map_get m k')"
  by (induction m) (auto simp: map_get_def)

lemma nodeMapOf_snoc: "nodeMapOf (ns @ [n]) = map_set (nodeMapOf ns) (n_id n) n"
  by (simp add: nodeMapOf_def)

lemma nodeMapOf_get:
  "i \<in> n_id ` set ns \<Longrightarrow> \<exists>n. map_get (nodeMapOf ns) i = Some n \<and> n_id n = i \<and> n \<in> set ns"
proof (induction ns rule: rev_induct)
  case Nil
  then show ?case by simp
next
  case (snoc x xs)
  then show ?case by (auto simp: nodeMapOf_snoc map_get_map_set)
qed

lemma addNodeAndChildren_prefix:
  "\<exists>ext. snd (addNodeAndChildren m stack acc) = snd acc @ ext"
proof (induction m stack acc rule: addNodeAndChildren.induct)
  case (1 nodeMap acc)
  then show ?case by simp
next
  case (2 nodeMap i stack acc)
  obtain visited result where acc: "acc = (visited, result)" by (cases acc)
  show ?case
  proof (cases "i \<in> set visited")
    case True
    then show ?thesis using 2(1)[OF acc[symmetric] True] acc by simp
  next
    case nv: False
    show ?thesis
    proof (cases "map_get nodeMap i")
      case None
      then show ?thesis using 2(2)[OF acc[symmetric] nv None] acc nv by simp
    next
      case (Some node)
      then show ?thesis using 2(3)[OF acc[symmetric] nv Some] acc nv by auto
    qed
  qed
qed

lemma reorder_root_first:
  assumes "map_get (nodeMapOf (nodes st)) rootId = Some n"
  shows "\<exists>ext. reorderNodesWithRootFirst st rootId = n # ext"
proof -
  obtain ext where "snd (addNodeAndChildren (nodeMapOf (nodes st)) (childrenOf n @ []) ([rootId], [] @ [n])) = ([] @ [n]) @ ext"
    using addNodeAndChildren_prefix[of "nodeMapOf (nodes st)" "childrenOf n @ []" "([rootId], [] @ [n])"] by auto
  then show ?thesis using assms
    by (auto simp: reorderNodesWithRootFirst_def split: prod.splits)
qed


section \<open>Ignored tags\<close>

lemma ignored_ids_prefix:
  "\<exists>new. fst (processIgnoredChildren h p i ks acc) = fst acc @ new"
proof (induction ks arbitrary: i acc)
  case Nil
  then show ?case by simp
next
  case (Cons k ks)
  obtain ids st where acc: "acc = (ids, st)" by (cases acc)
  show ?case
  proof (cases "is_element k")
    case True
    obtain c st' where pe: "processElement h (p @ [i]) k st = (c, st')"
      by (cases "processElement h (p @ [i]) k st")
    from Cons[of "Suc i" "(if c \<noteq> [] then ids @ [c] else ids, st')"]
    show ?thesis using acc True pe by auto
  next
    case False
    then show ?thesis using Cons[of "Suc i" "(ids, st)"] acc by simp
  qed
qed

lemma ignored_ids_nonempty:
  "[] \<notin> set (fst acc) \<Longrightarrow> [] \<notin> set (fst (processIgnoredChildren h p i ks acc))"
proof (induction ks arbitrary: i acc)
  case Nil
  then show ?case by simp
next
  case (Cons k ks)
  obtain ids st where acc: "acc = (ids, st)" by (cases acc)
  show ?case
  proof (cases "is_element k")
    case True
    obtain c st' where pe: "processElement h (p @ [i]) k st = (c, st')"
      by (cases "processElement h (p @ [i]) k st")
    from Cons.IH[of "(if c \<noteq> [] then ids @ [c] else ids, st')" "Suc i"] Cons.prems
    show ?thesis using acc True pe by auto
  next
    case False
    then show ?thesis using Cons.IH[of "(ids, st)" "Suc i"] Cons.prems acc by simp
  qed
qed

lemma kept_iff_id:
  "(\<not> kept el \<longrightarrow> processElement h p el st = ([], st)) \<and>
   (kept el \<longrightarrow> fst (processElement h p el st) \<noteq> [])"
  "(\<not> keptAny ks \<longrightarrow> processIgnoredChildren h p i ks acc = acc) \<and>
   (keptAny ks \<longrightarrow> length (fst acc) < length (fst (processIgnoredChildren h p i ks acc)))"
  "processChildNodes h p i ks2 acc2 = processChildNodes h p i ks2 acc2"
proof (induction h p el st and h p i ks acc and h p i ks2 acc2
       rule: processElement_processIgnoredChildren_processChildNodes.induct)
  case (1 h p t a ks st)
  show ?case
  proof (cases "t \<in> set IGNORED_TAGS")
    case True
    obtain ids st' where pi: "processIgnoredChildren h p 0 ks ([], st) = (ids, st')"
      by (cases "processIgnoredChildren h p 0 ks ([], st)")
    have "[] \<notin> set ids" using ignored_ids_nonempty[of "([], st)" h p 0 ks] pi by simp
    then show ?thesis using 1(1)[OF True] True pi by (cases ids) auto
  next
    case False
    obtain r st' where pe: "processElement h p (Element t a ks) st = (r, st')"
      by (cases "processElement h p (Element t a ks) st")
    from kept_element_result[OF False pe] show ?thesis using pe False by simp
  qed
next
  case (5 h p i k ks acc)
  obtain ids st where acc: "acc = (ids, st)" by (cases acc)
  show ?case
  proof (cases "is_element k")
    case True
    obtain c st' where pe: "processElement h (p @ [i]) k st = (c, st')"
      by (cases "processElement h (p @ [i]) k st")
    note ih1 = 5(1)[OF acc[symmetric] True]
    note ih2 = 5(2)[OF acc[symmetric] True pe[symmetric]]
    obtain new where new: "fst (processIgnoredChildren h p (Suc i) ks (if c \<noteq> [] then ids @ [c] else ids, st')) = (if c \<noteq> [] then ids @ [c] else ids) @ new"
      using ignored_ids_prefix[of h p "Suc i" ks "(if c \<noteq> [] then ids @ [c] else ids, st')"] by auto
    show ?thesis
    proof (cases "kept k")
      case True
      then have "c \<noteq> []" using ih1 pe by simp
      then show ?thesis using acc \<open>is_element k\<close> pe new True by simp
    next
      case False
      then have "c = []" "st' = st" using ih1 pe by simp_all
      then show ?thesis using ih2 acc \<open>is_element k\<close> pe False by simp
    qed
  next
    case False
    then have "\<not> kept k" by (cases k) simp_all
    then show ?thesis using 5(3)[OF acc[symmetric] False] acc False by simp
  qed
qed simp_all

lemma first_kept_child:
  assumes "\<not> keptAny pre" and "kept k"
  shows "processIgnoredChildren h p i (pre @ k # post) (ids, st) =
           processIgnoredChildren h p (Suc (i + length pre)) post
             (ids @ [fst (processElement h (p @ [i + length pre]) k st)],
              snd (processElement h (p @ [i + length pre]) k st))"
  using assms(1)
proof (induction pre arbitrary: i)
  case Nil
  have e: "is_element k" using assms(2) by (cases k) simp_all
  have "fst (processElement h (p @ [i]) k st) \<noteq> []" using kept_iff_id(1)[of k h "p @ [i]" st] assms(2) by simp
  then show ?case using e by (cases "processElement h (p @ [i]) k st") auto
next
  case (Cons x xs)
  then have nk: "\<not> kept x" and nx: "\<not> keptAny xs" by simp_all
  have "processIgnoredChildren h p i ((x # xs) @ k # post) (ids, st) =
        processIgnoredChildren h p (Suc i) (xs @ k # post) (ids, st)"
    using kept_iff_id(1)[of x h "p @ [i]" st] nk by (simp split: prod.splits)
  then show ?case using Cons.IH[OF nx, of "Suc i"] by simp
qed

lemma ignored_state_fold:
  "snd (processIgnoredChildren h p i ks acc) =
     foldl (\<lambda>s jk. snd (processElement h (p @ [fst jk]) (snd jk) s)) (snd acc)
       (filter (\<lambda>jk. is_element (snd jk)) (enumerate i ks))"
proof (induction ks arbitrary: i acc)
  case Nil
  then show ?case by simp
next
  case (Cons k ks)
  obtain ids st where acc: "acc = (ids, st)" by (cases acc)
  show ?case using Cons[of "Suc i"] acc by (simp split: prod.splits)
qed


text \<open>
  Claim C3, amended. For every element whose tag is in the ignored-tag set: the element
  makes no node and draws no identifier of its own, the state behind it is the state
  after its element children were visited one after the other in document order; when
  no child is kept the element hands back the empty identifier and leaves the state as
  it was; otherwise it hands back the identifier of its first kept child, and only that
  one: the nodes of later kept children are made and linked to no parent.
\<close>

theorem ignored_tag_first_child:
  assumes "t \<in> set IGNORED_TAGS"
  shows "snd (processElement h p (Element t a ks) st) =
           foldl (\<lambda>s jk. snd (processElement h (p @ [fst jk]) (snd jk) s)) st
             (filter (\<lambda>jk. is_element (snd jk)) (enumerate 0 ks)) \<and>
         (\<not> keptAny ks \<longrightarrow> processElement h p (Element t a ks) st = ([], st)) \<and>
         (\<forall>pre k post. ks = pre @ k # post \<and> \<not> keptAny pre \<and> kept k \<longrightarrow>
            fst (processElement h p (Element t a ks) st) =
              fst (processElement h (p @ [length pre]) k st))"
proof (intro conjI allI impI)
  show "snd (processElement h p (Element t a ks) st) =
           foldl (\<lambda>s jk. snd (processElement h (p @ [fst jk]) (snd jk) s)) st
             (filter (\<lambda>jk. is_element (snd jk)) (enumerate 0 ks))"
    using assms ignored_state_fold[of h p 0 ks "([], st)"]
    by (cases "processIgnoredChildren h p 0 ks ([], st)") auto
next
  assume "\<not> keptAny ks"
  then show "processElement h p (Element t a ks) st = ([], st)"
    using kept_iff_id(1)[of "Element t a ks" h p st] assms by simp
next
  fix pre k post
  assume a: "ks = pre @ k # post \<and> \<not> keptAny pre \<and> kept k"
  let ?r = "fst (processElement h (p @ [length pre]) k st)"
  let ?s = "snd (processElement h (p @ [length pre]) k st)"
  have 1: "processIgnoredChildren h p 0 ks ([], st) =
          processIgnoredChildren h p (Suc (length pre)) post ([?r], ?s)"
    using first_kept_child[of pre k h p 0 post "[]" st] a by simp
  obtain ids st' where 2: "processIgnoredChildren h p 0 ks ([], st) = (ids, st')"
    by (cases "processIgnoredChildren h p 0 ks ([], st)")
  from 1 2 have 3: "processIgnoredChildren h p (Suc (length pre)) post ([?r], ?s) = (ids, st')"
    by simp
  obtain new where
    "fst (processIgnoredChildren h p (Suc (length pre)) post ([?r], ?s)) = fst ([?r], ?s) @ new"
    using ignored_ids_prefix[of h p "Suc (length pre)" post "([?r], ?s)"] by blast
  with 3 have "ids = ?r # new" by simp
  then show "fst (processElement h p (Element t a ks) st) = ?r"
    using assms 2 by simp
qed

theorem ignored_tag_first_child_witness:
  "''tr'' \<in> set IGNORED_TAGS \<and> kept cellA \<and>
   fst (processElement exampleHost [0, 0, 0] (Element ''tr'' [] [cellA, cellB]) initialState) =
     fst (processElement exampleHost [0, 0, 0, 0] cellA initialState) \<and>
   fst (processElement exampleHost [0, 0, 0, 0] cellA initialState) = ''u''"
proof -
  have i: "''tr'' \<in> set IGNORED_TAGS" by (simp add: IGNORED_TAGS_def)
  have k: "\<not> keptAny [] \<and> kept cellA" by (simp add: cellA_def IGNORED_TAGS_def)
  have e: "fst (processElement exampleHost [0, 0, 0, 0] cellA initialState) = ''u''"
    by code_simp
  have "[cellA, cellB] = [] @ cellA # [cellB] \<and> \<not> keptAny [] \<and> kept cellA" using k by simp
  with ignored_tag_first_child[OF i, of exampleHost "[0, 0, 0]" "[]" "[cellA, cellB]" initialState]
  have "fst (processElement exampleHost [0, 0, 0] (Element ''tr'' [] [cellA, cellB]) initialState) =
        fst (processElement exampleHost ([0, 0, 0] @ [length ([] :: dnode list)]) cellA initialState)"
    by blast
  then have "fst (processElement exampleHost [0, 0, 0] (Element ''tr'' [] [cellA, cellB]) initialState) =
        fst (processElement exampleHost [0, 0, 0, 0] cellA initialState)"
    by simp
  with i k e show ?thesis by blast
qed

text \<open>
  The claim as it stands splices every child identifier into the parent. In the table
  with two cells the second paragraph (\<open>u+++\<close>) is made, and no children list holds it:
  the table node holds the first paragraph only. With one cell the paragraph hangs
  below the table node, the root, and no node stands for a table section.
\<close>

theorem hoisting_counterexample:
  "map (\<lambda>n. (n_id n, n_type n, n_children n)) (payload_nodes (convert exampleHost twoCellsDoc [])) =
     [(''u'', Some (TypeName ''DOM''), Some [''u+'']),
      (''u+'', Some (TypeName ''Paragraph''), Some [''u++'']),
      (''u++'', None, None),
      (''u++++'', None, None),
      (''u+++'', Some (TypeName ''Paragraph''), Some [''u++++''])] \<and>
   map (\<lambda>n. (n_id n, n_type n, n_data n, n_children n)) (payload_nodes (convert exampleHost oneCellDoc [])) =
     [(''u'', Some (TypeName ''DOM''), Some (DomData ''table'' [] []), Some [''u+'']),
      (''u+'', Some (TypeName ''Paragraph''),
         Some (ElementData ''p'' [(''id'', [])] [] NoExtra), Some [''u++'']),
      (''u++'', None, None, None)]"
  by code_simp

section \<open>The single root\<close>

text \<open>
  The loop over the children of the body: its state is the state after the element
  children were walked one after the other, and it appends the identifier of every
  kept child, in the order of the children.
\<close>

lemma top_ids_prefix:
  "\<exists>new. fst (processTopLevel h i ks acc) = fst acc @ new"
proof (induction ks arbitrary: i acc)
  case Nil
  then show ?case by simp
next
  case (Cons k ks)
  obtain ids st where acc: "acc = (ids, st)" by (cases acc)
  show ?case
  proof (cases "is_element k")
    case True
    obtain c st' where pe: "processElement h [i] k st = (c, st')"
      by (cases "processElement h [i] k st")
    from Cons[of "Suc i" "(if c \<noteq> [] then ids @ [c] else ids, st')"]
    show ?thesis using acc True pe by auto
  next
    case False
    then show ?thesis using Cons[of "Suc i" "(ids, st)"] acc by simp
  qed
qed

lemma top_state_fold:
  "snd (processTopLevel h i ks acc) =
     foldl (\<lambda>s jk. snd (processElement h [fst jk] (snd jk) s)) (snd acc)
       (filter (\<lambda>jk. is_element (snd jk)) (enumerate i ks))"
proof (induction ks arbitrary: i acc)
  case Nil
  then show ?case by simp
next
  case (Cons k ks)
  obtain ids st where acc: "acc = (ids, st)" by (cases acc)
  show ?case using Cons[of "Suc i"] acc by (simp split: prod.splits)
qed

lemma top_step:
  "processTopLevel h i (x # xs) acc = processTopLevel h (Suc i) xs (processTopLevel h i [x] acc)"
  by (cases acc) (simp split: prod.splits)

lemma top_single:
  "fst (processTopLevel h i [x] acc) =
     fst acc @ (if kept x then [fst (processElement h [i] x (snd acc))] else [])"
proof -
  obtain ids st where acc: "acc = (ids, st)" by (cases acc)
  show ?thesis
  proof (cases "is_element x")
    case True
    then show ?thesis using acc kept_iff_id(1)[of x h "[i]" st]
      by (cases "processElement h [i] x st") auto
  next
    case False
    then have "\<not> kept x" by (cases x) simp_all
    then show ?thesis using acc False by simp
  qed
qed

lemma top_length:
  "length (fst (processTopLevel h i ks acc)) = length (fst acc) + length (filter kept ks)"
proof (induction ks arbitrary: i acc)
  case Nil
  then show ?case by simp
next
  case (Cons k ks)
  show ?case
    unfolding top_step[of h i k ks acc] Cons[of "Suc i" "processTopLevel h i [k] acc"]
    by (simp add: top_single del: processTopLevel.simps)
qed

lemma top_kept_nth:
  assumes "kept k"
  shows "fst (processTopLevel h i (pre @ k # post) acc) ! (length (fst acc) + length (filter kept pre)) =
           fst (processElement h [i + length pre] k (snd (processTopLevel h i pre acc)))"
proof (induction pre arbitrary: i acc)
  case Nil
  obtain new where
    "fst (processTopLevel h (Suc i) post (processTopLevel h i [k] acc)) =
       fst (processTopLevel h i [k] acc) @ new"
    using top_ids_prefix by blast
  then have "fst (processTopLevel h i (k # post) acc) =
      fst acc @ fst (processElement h [i] k (snd acc)) # new"
    unfolding top_step[of h i k post acc] using assms
    by (simp add: top_single del: processTopLevel.simps)
  then show ?case by simp
next
  case (Cons x xs)
  have "length (fst (processTopLevel h i [x] acc)) + length (filter kept xs) =
        length (fst acc) + length (filter kept (x # xs))"
    by (simp add: top_single del: processTopLevel.simps)
  moreover have "processTopLevel h i (x # xs) acc =
        processTopLevel h (Suc i) xs (processTopLevel h i [x] acc)"
    by (rule top_step)
  moreover have "processTopLevel h i ((x # xs) @ k # post) acc =
        processTopLevel h (Suc i) (xs @ k # post) (processTopLevel h i [x] acc)"
    using top_step[of h i x "xs @ k # post" acc] by (simp del: processTopLevel.simps)
  ultimately show ?case
    using Cons[of "Suc i" "processTopLevel h i [x] acc"] by (simp del: processTopLevel.simps)
qed


text \<open>
  Claim C1, amended. Let \<open>T\<close> be the identifiers of the kept top-level elements in
  source order, followed by the identifier of the relocated-CSS embed when there is
  relocated CSS: \<open>T\<close> has one entry for each kept element child of the body, the
  style elements of the page taken out, and one for the embed, the entry of a kept child stands behind the entries of the kept
  children before it and is the identifier the walk hands back for that child, and
  the last entry is the identifier of the embed node. When \<open>T\<close> is empty the root is
  one synthesized empty Block/div node; when \<open>T\<close> holds one identifier the node of
  that identifier is the root; when \<open>T\<close> holds more the root is a synthesized
  Block/div wrapper whose children are exactly \<open>T\<close> in order. In every case the root
  is the first node of the output.
\<close>

theorem single_root_cases:
  "case topLevel h d css of (T, st) \<Rightarrow>
     length T = length (filter kept (doc_body_nodes (removeStyleTags d))) +
                (if relocatedCssParts d css \<noteq> [] then 1 else 0) \<and>
     (\<forall>pre k post. doc_body_nodes (removeStyleTags d) = pre @ k # post \<and> kept k \<longrightarrow>
        T ! length (filter kept pre) =
          fst (processElement h [length pre] k
                 (foldl (\<lambda>s jk. snd (processElement h [fst jk] (snd jk) s)) (fst (walkStart d css))
                    (filter (\<lambda>jk. is_element (snd jk)) (enumerate 0 pre))))) \<and>
     (relocatedCssParts d css \<noteq> [] \<longrightarrow>
        (\<exists>e\<in>set (nodes st). n_id e = last T \<and> n_type e = Some (TypeName ''HtmlEmbed'') \<and>
           n_v e = Some (embedContent (relocatedCssParts d css)))) \<and>
     payload_nodes (convert h d css) \<noteq> [] \<and>
     (case T of
        [] \<Rightarrow> hd (payload_nodes (convert h d css)) = blockNode (uuid_text (uuidCount st)) []
      | [only] \<Rightarrow> n_id (hd (payload_nodes (convert h d css))) = only \<and>
                   hd (payload_nodes (convert h d css)) \<in> set (nodes st)
      | first # second # others \<Rightarrow>
          hd (payload_nodes (convert h d css)) = blockNode (uuid_text (uuidCount st)) T)"
proof -
  let ?ks = "doc_body_nodes (removeStyleTags d)"
  let ?st0 = "fst (walkStart d css)"
  obtain T st where tl: "topLevel h d css = (T, st)" by (cases "topLevel h d css")
  obtain ids stw where w: "walkTopLevel h d css = (ids, stw)" by (cases "walkTopLevel h d css")
  have shape: "T = ids @ (if relocatedCssParts d css \<noteq> [] then [uuid_text (uuidCount stw)] else [])"
    using tl w by (auto simp: topLevel_def addEmbed_def createHtmlEmbed_def uuidv4_def)
  have w': "processTopLevel h 0 ?ks ([], ?st0) = (ids, stw)" using w by (simp add: walkTopLevel_def)
  have lids: "length ids = length (filter kept ?ks)"
    using top_length[of h 0 ?ks "([], ?st0)"] w' by simp
  have len: "length T = length (filter kept ?ks) + (if relocatedCssParts d css \<noteq> [] then 1 else 0)"
    using shape lids by simp
  have order: "\<forall>pre k post. ?ks = pre @ k # post \<and> kept k \<longrightarrow>
        T ! length (filter kept pre) =
          fst (processElement h [length pre] k
                 (foldl (\<lambda>s jk. snd (processElement h [fst jk] (snd jk) s)) ?st0
                    (filter (\<lambda>jk. is_element (snd jk)) (enumerate 0 pre))))"
  proof (intro allI impI)
    fix pre k post
    assume a: "?ks = pre @ k # post \<and> kept k"
    then have "length (filter kept pre) < length (filter kept ?ks)" by simp
    then have "T ! length (filter kept pre) = ids ! length (filter kept pre)"
      using shape lids by (simp add: nth_append)
    also have "\<dots> = fst (processTopLevel h 0 (pre @ k # post) ([], ?st0)) ! (length (fst ([] :: string list, ?st0)) + length (filter kept pre))"
      using w' a by simp
    also have "\<dots> = fst (processElement h [0 + length pre] k (snd (processTopLevel h 0 pre ([], ?st0))))"
      using a by (intro top_kept_nth) simp
    finally show "T ! length (filter kept pre) =
          fst (processElement h [length pre] k
                 (foldl (\<lambda>s jk. snd (processElement h [fst jk] (snd jk) s)) ?st0
                    (filter (\<lambda>jk. is_element (snd jk)) (enumerate 0 pre))))"
      by (simp add: top_state_fold)
  qed
  have embed: "relocatedCssParts d css \<noteq> [] \<longrightarrow>
        (\<exists>e\<in>set (nodes st). n_id e = last T \<and> n_type e = Some (TypeName ''HtmlEmbed'') \<and>
           n_v e = Some (embedContent (relocatedCssParts d css)))"
    using tl w shape
    by (auto simp: topLevel_def addEmbed_def createHtmlEmbed_def uuidv4_def pushNode_def)
  have ids: "set T \<subseteq> n_id ` set (nodes st)" using topLevel_ids[of h d css] tl by simp
  have fresh: "\<And>cs. \<exists>ext. reorderNodesWithRootFirst
        (pushNode (blockNode (uuid_text (uuidCount st)) cs) (snd (uuidv4 st))) (uuid_text (uuidCount st))
        = blockNode (uuid_text (uuidCount st)) cs # ext"
    by (rule reorder_root_first)
       (simp add: nodes_pushNode nodes_uuidv4 nodeMapOf_snoc map_get_map_set blockNode_def)
  have rest: "payload_nodes (convert h d css) \<noteq> [] \<and>
     (case T of
        [] \<Rightarrow> hd (payload_nodes (convert h d css)) = blockNode (uuid_text (uuidCount st)) []
      | [only] \<Rightarrow> n_id (hd (payload_nodes (convert h d css))) = only \<and>
                   hd (payload_nodes (convert h d css)) \<in> set (nodes st)
      | first # second # others \<Rightarrow>
          hd (payload_nodes (convert h d css)) = blockNode (uuid_text (uuidCount st)) T)"
  proof (cases T)
    case Nil
    then show ?thesis using tl fresh[of "[]"]
      by (auto simp: convert_def chooseRoot_def uuidv4_def split: prod.splits)
  next
    case (Cons x xs)
    show ?thesis
    proof (cases xs)
      case Nil
      then have "x \<in> n_id ` set (nodes st)" using ids Cons by simp
      from nodeMapOf_get[OF this] obtain n where
        n: "map_get (nodeMapOf (nodes st)) x = Some n" "n_id n = x" "n \<in> set (nodes st)" by blast
      from reorder_root_first[OF n(1)] obtain ext where "reorderNodesWithRootFirst st x = n # ext" ..
      then show ?thesis using tl Cons Nil n by (simp add: convert_def chooseRoot_def)
    next
      case (Cons y ys)
      then show ?thesis using tl \<open>T = x # xs\<close> fresh[of T]
        by (auto simp: convert_def chooseRoot_def uuidv4_def split: prod.splits)
    qed
  qed
  from len order embed rest show ?thesis unfolding tl prod.case by (intro conjI) blast+
qed

theorem single_root_cases_witness:
  "doc_body_nodes (removeStyleTags mixedDoc) =
     [Element ''div'' [] [], TextNode '' '', Element ''br'' [] []] @ Element ''p'' [] [] # [] \<and>
   kept (Element ''p'' [] []) \<and>
   relocatedCssParts mixedDoc ''.foo { color: red; }'' \<noteq> [] \<and>
   length (filter kept [Element ''div'' [] [], TextNode '' '', Element ''br'' [] []]) = 1 \<and>
   fst (topLevel exampleHost mixedDoc ''.foo { color: red; }'') ! 1 = ''u+'' \<and>
   (\<exists>e\<in>set (nodes (snd (topLevel exampleHost mixedDoc ''.foo { color: red; }''))).
      n_id e = ''u++'' \<and> n_type e = Some (TypeName ''HtmlEmbed'')) \<and>
   hd (payload_nodes (convert exampleHost mixedDoc ''.foo { color: red; }'')) =
     blockNode ''u+++'' [''u'', ''u+'', ''u++'']"
proof -
  let ?css = "''.foo { color: red; }''"
  let ?pre = "[Element ''div'' [] [], TextNode '' '', Element ''br'' [] []]"
  let ?k = "Element ''p'' [] []"
  obtain T st where tl: "topLevel exampleHost mixedDoc ?css = (T, st)"
    by (cases "topLevel exampleHost mixedDoc ?css")
  note t = single_root_cases[where h=exampleHost and d=mixedDoc and css="?css", unfolded tl prod.case]
  have T: "fst (topLevel exampleHost mixedDoc ?css) = [''u'', ''u+'', ''u++'']" by code_simp
  then have T': "T = [''u'', ''u+'', ''u++'']" by (simp add: tl)
  have c: "uuid_text (uuidCount (snd (topLevel exampleHost mixedDoc ?css))) = ''u+++''" by code_simp
  then have c': "uuid_text (uuidCount st) = ''u+++''" by (simp add: tl)
  have h1: "doc_body_nodes (removeStyleTags mixedDoc) = ?pre @ ?k # []" by code_simp
  have h2: "kept ?k" by code_simp
  have h3: "relocatedCssParts mixedDoc ?css \<noteq> []" by code_simp
  have n: "length (filter kept ?pre) = 1" by code_simp
  have r: "fst (processElement exampleHost [length ?pre] ?k
                 (foldl (\<lambda>s jk. snd (processElement exampleHost [fst jk] (snd jk) s))
                    (fst (walkStart mixedDoc ?css))
                    (filter (\<lambda>jk. is_element (snd jk)) (enumerate 0 ?pre)))) = ''u+''"
    by code_simp
  from t h1 h2 have "T ! length (filter kept ?pre) =
        fst (processElement exampleHost [length ?pre] ?k
                 (foldl (\<lambda>s jk. snd (processElement exampleHost [fst jk] (snd jk) s))
                    (fst (walkStart mixedDoc ?css))
                    (filter (\<lambda>jk. is_element (snd jk)) (enumerate 0 ?pre))))"
    by blast
  then have a: "fst (topLevel exampleHost mixedDoc ?css) ! 1 = ''u+''"
    unfolding n r by (simp add: tl)
  from t h3 have "\<exists>e\<in>set (nodes st). n_id e = last T \<and> n_type e = Some (TypeName ''HtmlEmbed'')"
    by blast
  then have b: "\<exists>e\<in>set (nodes (snd (topLevel exampleHost mixedDoc ?css))).
      n_id e = ''u++'' \<and> n_type e = Some (TypeName ''HtmlEmbed'')"
    by (simp add: tl T')
  from t have "hd (payload_nodes (convert exampleHost mixedDoc ?css)) =
     blockNode ''u+++'' [''u'', ''u+'', ''u++'']"
    by (simp add: T' c')
  with h1 h2 h3 n a b show ?thesis by blast
qed


text \<open>
  The claim as it stands counts the top-level elements only. A page with no element and
  the stylesheet \<^verbatim>\<open>.foo { color: red; }\<close> has the relocated-CSS embed as its root, not
  an empty Block; the page \<^verbatim>\<open><div></div>\<close> with that stylesheet has a wrapper as its
  root, with the div and the embed as children.
\<close>

theorem single_root_counterexample:
  "map (\<lambda>n. (n_id n, n_type n, n_children n))
     (payload_nodes (convert exampleHost (bodyOf []) ''.foo { color: red; }'')) =
     [(''u'', Some (TypeName ''HtmlEmbed''), Some [])] \<and>
   map (\<lambda>n. (n_id n, n_type n, n_tag n, n_children n))
     (payload_nodes (convert exampleHost (bodyOf [Element ''div'' [] []]) ''.foo { color: red; }'')) =
     [(''u++'', Some (TypeName ''Block''), Some ''div'', Some [''u'', ''u+'']),
      (''u'', Some (TypeName ''Block''), Some ''div'', Some []),
      (''u+'', Some (TypeName ''HtmlEmbed''), Some ''div'', Some [])]"
  by code_simp

section \<open>Merging into class styles\<close>

lemma map_fst_map_set:
  "map fst (map_set m k v) = (if k \<in> fst ` set m then map fst m else map fst m @ [k])"
  by (induction m) (force simp: image_iff)+

lemma distinct_map_set: "distinct (map fst m) \<Longrightarrow> distinct (map fst (map_set m k v))"
  by (simp add: map_fst_map_set)

lemma styleRefsOk_newStyle:
  assumes "styleRefsOk st"
  shows "styleRefsOk (newStyle i name decl st)"
  unfolding styleRefsOk_def
proof (intro allI impI)
  fix j r
  assume a: "map_get (styleMap (newStyle i name decl st)) j = Some r"
  show "r < length (styles (newStyle i name decl st)) \<and> s_id (styles (newStyle i name decl st) ! r) = j"
  proof (cases "j = i")
    case True
    then show ?thesis using a by (auto simp: newStyle_def map_get_map_set nth_append)
  next
    case False
    then have "map_get (styleMap st) j = Some r" using a by (simp add: newStyle_def map_get_map_set)
    then have "r < length (styles st) \<and> s_id (styles st ! r) = j"
      using assms unfolding styleRefsOk_def by blast
    then show ?thesis by (simp add: newStyle_def nth_append)
  qed
qed

lemma stylesReady_processStyle:
  assumes "stylesReady (fst acc)"
  shows "stylesReady (fst (processStyle acc e))"
proof -
  obtain st un where acc: "acc = (st, un)" by (cases acc)
  obtain sel decl where e: "e = (sel, decl)" by (cases e)
  have r: "stylesReady st" using assms acc by simp
  have new: "\<And>st' name. stylesReady st' \<Longrightarrow>
      stylesReady (newStyle (uuid_text (uuidCount st')) name decl (st'\<lparr>uuidCount := Suc (uuidCount st')\<rparr>))"
  proof -
    fix st' name assume a: "stylesReady st'"
    then have "styleRefsOk (st'\<lparr>uuidCount := Suc (uuidCount st')\<rparr>)" by (simp add: stylesReady_def styleRefsOk_def)
    from styleRefsOk_newStyle[OF this] a
    show "stylesReady (newStyle (uuid_text (uuidCount st')) name decl (st'\<lparr>uuidCount := Suc (uuidCount st')\<rparr>))"
      by (simp add: stylesReady_def) (simp add: newStyle_def)
  qed
  have c: "stylesReady (st\<lparr>complexRules := map_set (complexRules st) sel decl,
                selectorToClassMap := map_set (selectorToClassMap st) sel (generateClassNameFromSelector sel)\<rparr>)"
    using r by (simp add: stylesReady_def styleRefsOk_def distinct_map_set)
  show ?thesis
    using r new[OF r] new[OF c] acc e
    by (auto simp: processStyle_def Let_def uuidv4_def)
qed

lemma stylesReady_walkStart: "stylesReady (fst (walkStart d css))"
proof -
  have f: "stylesReady (fst acc) \<Longrightarrow> stylesReady (fst (foldl processStyle acc ps))" for ps acc
    by (induction ps arbitrary: acc) (simp_all add: stylesReady_processStyle)
  show ?thesis
    unfolding walkStart_def stylesPhase_def
    by (rule f) (simp add: stylesReady_def initialState_def styleRefsOk_def map_get_def)
qed


lemma take_replicate_sep:
  "c \<noteq> d \<Longrightarrow> take (Suc b) (replicate a c @ d # s) = replicate b c @ [d] \<longleftrightarrow> a = b"
proof (induction a arbitrary: b)
  case 0
  then show ?case by (cases b) auto
next
  case (Suc a)
  then show ?case by (cases b) auto
qed

lemma uuid_prefix:
  "startsWith (uuid_text a @ CHR '':'' # s) (uuid_text b @ '':'') \<longleftrightarrow> a = b"
  using take_replicate_sep[of "CHR ''+''" "CHR '':''" b a s]
  by (simp add: startsWith_def uuid_text_def)

lemma mergedSelectors_snoc:
  "mergedSelectors (uuid_text b) (keys @ [uuid_text a @ CHR '':'' # sel]) =
     (if a = b then mergedSelectors (uuid_text b) keys @ [sel]
      else mergedSelectors (uuid_text b) keys)"
  by (simp add: mergedSelectors_def uuid_prefix)

lemma mergedText_snoc:
  "map_get rules sel = Some decl \<Longrightarrow>
     mergedText rules (sels @ [sel]) = mergedText rules sels @ '' '' @ decl"
  by (simp add: mergedText_def)

lemma map_get_distinct:
  "distinct (map fst m) \<Longrightarrow> (k, v) \<in> set m \<Longrightarrow> map_get m k = Some v"
  by (simp add: map_get_def)

lemma ready_ids:
  assumes "stylesReady st0" and "r < length (styles st0)"
  shows "s_id (styles st0 ! r) = uuid_text r"
proof -
  have "map s_id (styles st0) ! r = map uuid_text [0..<uuidCount st0] ! r"
    using assms(1) by (simp add: stylesReady_def)
  moreover have "length (map s_id (styles st0)) = length (map uuid_text [0..<uuidCount st0])"
    using assms(1) by (simp add: stylesReady_def)
  then have "length (styles st0) = uuidCount st0" by simp
  ultimately show ?thesis using assms(2) by simp
qed

lemma mergedOnce_rule:
  assumes ready: "stylesReady st0"
    and rule: "rule \<in> set (complexRules st0)"
    and inv: "mergedOnce st0 (snd acc)"
  shows "mergedOnce st0 (snd (applyComplexRule h p acc rule))"
proof -
  obtain classIds st where acc: "acc = (classIds, st)" by (cases acc)
  obtain selector styleLess where r: "rule = (selector, styleLess)" by (cases rule)
  have inv': "mergedOnce st0 st" using inv acc by simp
  have decl: "map_get (complexRules st0) selector = Some styleLess"
    using ready rule r by (simp add: stylesReady_def map_get_distinct)
  show ?thesis
  proof (cases "\<exists>targetStyleId others ref. el_matches h p selector = Some True \<and>
                  classIds = targetStyleId # others \<and>
                  targetStyleId @ '':'' @ selector \<notin> set (processedMerges st) \<and>
                  map_get (styleMap st) targetStyleId = Some ref")
    case False
    then have "snd (applyComplexRule h p acc rule) = st"
      unfolding applyComplexRule_def acc r
      by (auto simp: Let_def split: option.splits bool.splits list.splits)
    then show ?thesis using inv' by simp
  next
    case True
    then obtain target others ref where t:
      "el_matches h p selector = Some True" "classIds = target # others"
      "target @ '':'' @ selector \<notin> set (processedMerges st)"
      "map_get (styleMap st) target = Some ref" by blast
    let ?st' = "st\<lparr>styles := (styles st)
                      [ref := (styles st ! ref)
                         \<lparr>s_styleLess := s_styleLess (styles st ! ref) @ '' '' @ styleLess\<rparr>],
                    processedMerges := processedMerges st @ [target @ '':'' @ selector]\<rparr>"
    have res: "snd (applyComplexRule h p acc rule) = ?st'"
      unfolding applyComplexRule_def acc r using t by (simp add: Let_def)
    have sm: "map_get (styleMap st0) target = Some ref" using t(4) inv' by (simp add: mergedOnce_def)
    then have ref: "ref < length (styles st0)" "s_id (styles st0 ! ref) = target"
      using ready by (auto simp: stylesReady_def styleRefsOk_def)
    have tid: "target = uuid_text ref" using ready_ids[OF ready ref(1)] ref(2) by simp
    have "map s_id (styles st) = map s_id (styles st0)"
      using inv' unfolding mergedOnce_def by blast
    then have len: "length (styles st) = length (styles st0)"
      by (rule map_eq_imp_length_eq)
    have rl: "ref < length (styles st)" using len ref(1) by simp
    have "map s_id (styles ?st') = map s_id (styles st)"
      using rl by (simp add: map_update list_update_same_conv)
    then have m1: "map s_id (styles ?st') = map s_id (styles st0)"
      using inv' by (simp add: mergedOnce_def)
    have "map s_name (styles ?st') = map s_name (styles st)"
      using rl by (simp add: map_update list_update_same_conv)
    then have m2: "map s_name (styles ?st') = map s_name (styles st0)"
      using inv' by (simp add: mergedOnce_def)
    have d: "distinct (processedMerges ?st')" using inv' t(3) by (simp add: mergedOnce_def)
    have body: "\<forall>r<length (styles st0).
         s_styleLess (styles ?st' ! r) =
           s_styleLess (styles st0 ! r) @
           mergedText (complexRules st0)
             (mergedSelectors (s_id (styles st0 ! r)) (processedMerges ?st'))"
    proof (intro allI impI)
      fix r assume rl: "r < length (styles st0)"
      have old: "s_styleLess (styles st ! r) =
           s_styleLess (styles st0 ! r) @
           mergedText (complexRules st0)
             (mergedSelectors (s_id (styles st0 ! r)) (processedMerges st))"
        using inv' rl by (simp add: mergedOnce_def)
      have rid: "s_id (styles st0 ! r) = uuid_text r" by (rule ready_ids[OF ready rl])
      show "s_styleLess (styles ?st' ! r) =
           s_styleLess (styles st0 ! r) @
           mergedText (complexRules st0)
             (mergedSelectors (s_id (styles st0 ! r)) (processedMerges ?st'))"
      proof (cases "r = ref")
        case True
        then show ?thesis using old rl len rid tid
          by (simp add: mergedSelectors_snoc mergedText_snoc[OF decl])
      next
        case False
        then show ?thesis using old rl len rid tid
          by (simp add: mergedSelectors_snoc)
      qed
    qed
    show ?thesis unfolding res mergedOnce_def
      using m1 m2 d body inv' by (simp add: mergedOnce_def)
  qed
qed


lemma complexRules_applyComplexRule:
  "complexRules (snd (applyComplexRule h p acc rule)) = complexRules (snd acc)"
  by (auto simp: applyComplexRule_def Let_def split: prod.splits option.splits bool.splits list.splits)

lemma mergedOnce_rules:
  assumes "stylesReady st0"
  shows "set rs \<subseteq> set (complexRules st0) \<Longrightarrow> mergedOnce st0 (snd acc) \<Longrightarrow>
           mergedOnce st0 (snd (foldl (applyComplexRule h p) acc rs))"
proof (induction rs arbitrary: acc)
  case Nil
  then show ?case by simp
next
  case (Cons r rs)
  then show ?case using mergedOnce_rule[OF assms, of r acc h p] by simp
qed

lemma mergedOnce_step:
  assumes "stylesReady st0"
  shows "mergedOnce st0 st \<Longrightarrow> mergedOnce st0 (snd (uuidv4 st))"
    and "mergedOnce st0 st \<Longrightarrow> mergedOnce st0 (pushNode nd st)"
    and "mergedOnce st0 st \<Longrightarrow> mergedOnce st0 (snd (resolveClassIds h p el st))"
proof -
  show "mergedOnce st0 st \<Longrightarrow> mergedOnce st0 (snd (uuidv4 st))"
    by (simp add: mergedOnce_def uuidv4_def)
  show "mergedOnce st0 st \<Longrightarrow> mergedOnce st0 (pushNode nd st)"
    by (simp add: mergedOnce_def pushNode_def)
  assume a: "mergedOnce st0 st"
  then have "set (complexRules st) \<subseteq> set (complexRules st0)" by (simp add: mergedOnce_def)
  from mergedOnce_rules[OF assms this, of "(classStyleIds st (el), st)" h p] a
  show "mergedOnce st0 (snd (resolveClassIds h p el st))"
    by (simp add: resolveClassIds_def)
qed

lemma topLevel_preserves:
  fixes P :: "converter \<Rightarrow> bool"
  assumes u: "\<And>st. P st \<Longrightarrow> P (snd (uuidv4 st))"
      and n: "\<And>st nd. P st \<Longrightarrow> P (pushNode nd st)"
      and r: "\<And>h st p el. P st \<Longrightarrow> P (snd (resolveClassIds h p el st))"
  shows "P (snd acc) \<Longrightarrow> P (snd (processTopLevel h i ks acc))"
proof (induction h i ks acc rule: processTopLevel.induct)
  case (1 h i acc)
  then show ?case by simp
next
  case (2 h i k ks acc)
  obtain ids st where acc: "acc = (ids, st)" by (cases acc)
  show ?case
  proof (cases "is_element k")
    case True
    obtain c st' where pe: "processElement h [i] k st = (c, st')"
      by (cases "processElement h [i] k st")
    have "P st'" using walk_preserves(1)[where P=P, OF u n r, of st h "[i]" k] 2(3) acc pe by simp
    then show ?thesis using 2(1)[OF acc[symmetric] True pe[symmetric]] acc True pe by simp
  next
    case False
    then show ?thesis using 2(2)[OF acc[symmetric] False] 2(3) acc by simp
  qed
qed

lemma mergedOnce_refl:
  "stylesReady st0 \<Longrightarrow> mergedOnce st0 st0"
  by (simp add: mergedOnce_def stylesReady_def mergedSelectors_def mergedText_def)

lemma addEmbed_preserves:
  fixes P :: "converter \<Rightarrow> bool"
  assumes u: "\<And>st. P st \<Longrightarrow> P (snd (uuidv4 st))"
      and n: "\<And>st nd. P st \<Longrightarrow> P (pushNode nd st)"
  shows "P (snd acc) \<Longrightarrow> P (snd (addEmbed parts acc))"
proof -
  assume a: "P (snd acc)"
  obtain ids st where acc: "acc = (ids, st)" by (cases acc)
  obtain i st' where uu: "uuidv4 st = (i, st')" by (cases "uuidv4 st")
  have "P st'" using u[of st] a acc uu by simp
  then show ?thesis using a acc uu by (simp add: addEmbed_def createHtmlEmbed_def n)
qed

lemma mergedOnce_topLevel: "mergedOnce (fst (walkStart d css)) (snd (topLevel h d css))"
proof -
  let ?start = "fst (walkStart d css)"
  have ready: "stylesReady ?start" by (rule stylesReady_walkStart)
  have "mergedOnce ?start (snd (walkTopLevel h d css))"
    unfolding walkTopLevel_def
    by (rule topLevel_preserves[where P="mergedOnce ?start"])
       (simp_all add: mergedOnce_step[OF ready] mergedOnce_refl[OF ready])
  then show ?thesis
    unfolding topLevel_def
    by (rule addEmbed_preserves[where P="mergedOnce ?start", rotated 2])
       (simp_all add: mergedOnce_step[OF ready])
qed

lemma styles_chooseRoot:
  "styles (snd (chooseRoot acc)) = styles (snd acc)"
  by (cases acc) (auto simp: chooseRoot_def uuidv4_def pushNode_def split: list.splits)

lemma distinct_mergedSelectors:
  assumes "distinct keys"
  shows "distinct (mergedSelectors i keys)"
proof -
  have "inj_on (drop (Suc (length i))) {k. startsWith k (i @ '':'')}"
  proof (rule inj_onI)
    fix x y
    assume "x \<in> {k. startsWith k (i @ '':'')}" "y \<in> {k. startsWith k (i @ '':'')}"
      and e: "drop (Suc (length i)) x = drop (Suc (length i)) y"
    then have "take (Suc (length i)) x = take (Suc (length i)) y" by (simp add: startsWith_def)
    with e show "x = y" by (metis append_take_drop_id)
  qed
  then show ?thesis using assms
    unfolding mergedSelectors_def by (auto simp: distinct_map intro: inj_on_subset)
qed

text \<open>
  Claim C8. In every conversion run the keys in \<^verbatim>\<open>processedMerges\<close> are pairwise
  distinct, the walk makes and drops no style, and the declaration string of every
  style at the end is its declaration string before the walk followed by one space and
  the declaration string of the selector for each selector merged into it, where the
  selectors merged into one style are pairwise distinct: the declarations of a (style,
  selector) pair are appended at most once, however many elements of that style the
  selector matches.
\<close>

theorem merge_once:
  "distinct (processedMerges (snd (topLevel h d css))) \<and>
   length (payload_styles (convert h d css)) = length (styles (fst (walkStart d css))) \<and>
   (\<forall>r<length (styles (fst (walkStart d css))).
      s_id (payload_styles (convert h d css) ! r) = s_id (styles (fst (walkStart d css)) ! r) \<and>
      distinct (mergedSelectors (s_id (styles (fst (walkStart d css)) ! r))
                  (processedMerges (snd (topLevel h d css)))) \<and>
      s_styleLess (payload_styles (convert h d css) ! r) =
        s_styleLess (styles (fst (walkStart d css)) ! r) @
        mergedText (complexRules (fst (walkStart d css)))
          (mergedSelectors (s_id (styles (fst (walkStart d css)) ! r))
             (processedMerges (snd (topLevel h d css)))))"
proof -
  let ?start = "fst (walkStart d css)"
  let ?final = "snd (topLevel h d css)"
  have m: "mergedOnce ?start ?final" by (rule mergedOnce_topLevel)
  have out: "payload_styles (convert h d css) = styles ?final"
    using styles_chooseRoot[of "topLevel h d css"]
    by (cases "chooseRoot (topLevel h d css)") (simp add: convert_def)
  have d: "distinct (processedMerges ?final)" using m by (simp add: mergedOnce_def)
  have mi: "map s_id (styles ?final) = map s_id (styles ?start)"
    using m unfolding mergedOnce_def by blast
  have len: "length (styles ?final) = length (styles ?start)"
    using mi by (rule map_eq_imp_length_eq)
  have ids: "\<And>r. r < length (styles ?start) \<Longrightarrow> s_id (styles ?final ! r) = s_id (styles ?start ! r)"
  proof -
    fix r assume "r < length (styles ?start)"
    then have "map s_id (styles ?final) ! r = s_id (styles ?final ! r)"
      and "map s_id (styles ?start) ! r = s_id (styles ?start ! r)"
      using len by simp_all
    then show "s_id (styles ?final ! r) = s_id (styles ?start ! r)" using mi by simp
  qed
  have body: "\<And>r. r < length (styles ?start) \<Longrightarrow>
      s_styleLess (styles ?final ! r) =
        s_styleLess (styles ?start ! r) @
        mergedText (complexRules ?start)
          (mergedSelectors (s_id (styles ?start ! r)) (processedMerges ?final))"
    using m unfolding mergedOnce_def by blast
  show ?thesis
    unfolding out
    by (intro conjI allI impI d len ids body distinct_mergedSelectors[OF d])
qed

theorem merge_once_witness:
  "processedMerges (snd (topLevel cardsHost cardsDoc cardsCss)) = [''u:.wrap .card''] \<and>
   mergedSelectors ''u'' [''u:.wrap .card''] = [''.wrap .card''] \<and>
   s_styleLess (payload_styles (convert cardsHost cardsDoc cardsCss) ! 0) = ''color: red; color: blue;''"
proof -
  have a: "processedMerges (snd (topLevel cardsHost cardsDoc cardsCss)) = [''u:.wrap .card'']"
    by code_simp
  have b: "styles (fst (walkStart cardsDoc cardsCss)) =
     [\<lparr>s_id = ''u'', s_name = ''card'', s_styleLess = ''color: red;''\<rparr>,
      \<lparr>s_id = ''u+'', s_name = ''scoped-style-wrap-card'', s_styleLess = ''color: blue;''\<rparr>]"
    by code_simp
  have c: "complexRules (fst (walkStart cardsDoc cardsCss)) = [(''.wrap .card'', ''color: blue;'')]"
    by code_simp
  have m: "mergedSelectors ''u'' [''u:.wrap .card''] = [''.wrap .card'']" by code_simp
  have t: "mergedText [(''.wrap .card'', ''color: blue;'')] [''.wrap .card''] = '' color: blue;''"
    by code_simp
  have "0 < length (styles (fst (walkStart cardsDoc cardsCss)))" by (simp add: b)
  with merge_once[of cardsHost cardsDoc cardsCss]
  have "s_styleLess (payload_styles (convert cardsHost cardsDoc cardsCss) ! 0) =
        s_styleLess (styles (fst (walkStart cardsDoc cardsCss)) ! 0) @
        mergedText (complexRules (fst (walkStart cardsDoc cardsCss)))
          (mergedSelectors (s_id (styles (fst (walkStart cardsDoc cardsCss)) ! 0))
             (processedMerges (snd (topLevel cardsHost cardsDoc cardsCss))))"
    by blast
  then have "s_styleLess (payload_styles (convert cardsHost cardsDoc cardsCss) ! 0) =
        ''color: red; color: blue;''"
    by (simp add: a b c m t)
  with a m show ?thesis by blast
qed


section \<open>Unused classes\<close>

lemma processStyle_fold:
  "usedClasses st = used \<Longrightarrow>
   usedClasses (fst (foldl processStyle (st, un) ps)) = used \<and>
   map s_name (styles (fst (foldl processStyle (st, un) ps))) =
     map s_name (styles st) @ map styleNameOf (filter (makesStyle used) ps) \<and>
   snd (foldl processStyle (st, un) ps) =
     un @ map unusedRuleText (filter (\<lambda>e. \<not> makesStyle used e) ps)"
proof (induction ps arbitrary: st un)
  case Nil
  then show ?case by simp
next
  case (Cons e ps)
  obtain st' un' where step: "processStyle (st, un) e = (st', un')"
    by (cases "processStyle (st, un) e")
  have u: "usedClasses st' = used"
    using step Cons.prems
    by (auto simp: processStyle_def Let_def uuidv4_def newStyle_def split: prod.splits if_splits)
  have s: "map s_name (styles st') =
             map s_name (styles st) @ (if makesStyle used e then [styleNameOf e] else [])"
    using step Cons.prems
    by (auto simp: processStyle_def Let_def uuidv4_def newStyle_def makesStyle_def styleNameOf_def
             split: prod.splits if_splits)
  have n: "un' = un @ (if makesStyle used e then [] else [unusedRuleText e])"
    using step Cons.prems
    by (auto simp: processStyle_def Let_def uuidv4_def newStyle_def makesStyle_def unusedRuleText_def
             split: prod.splits if_splits)
  show ?case using Cons.IH[OF u, of un'] step s n by simp
qed

lemma walkStart_styles:
  "map s_name (styles (fst (walkStart d css))) =
     map styleNameOf (filter (makesStyle (collectUsedClasses (doc_body (removeStyleTags d))))
                        (parsedStylesOf d css))"
  "snd (walkStart d css) =
     map unusedRuleText
       (filter (\<lambda>e. \<not> makesStyle (collectUsedClasses (doc_body (removeStyleTags d))) e)
          (parsedStylesOf d css))"
  using processStyle_fold[of "initialState\<lparr>usedClasses := collectUsedClasses (doc_body (removeStyleTags d))\<rparr>"
          "collectUsedClasses (doc_body (removeStyleTags d))" "[]" "parsedStylesOf d css"]
  by (simp_all add: walkStart_def stylesPhase_def initialState_def)



lemma output_style_names:
  "map s_name (payload_styles (convert h d css)) = map s_name (styles (fst (walkStart d css)))"
proof -
  have "mergedOnce (fst (walkStart d css)) (snd (topLevel h d css))" by (rule mergedOnce_topLevel)
  then have "map s_name (styles (snd (topLevel h d css))) = map s_name (styles (fst (walkStart d css)))"
    unfolding mergedOnce_def by blast
  then show ?thesis
    using styles_chooseRoot[of "topLevel h d css"]
    by (cases "chooseRoot (topLevel h d css)") (simp add: convert_def)
qed

text \<open>Every selector that is not a simple class selector gets a style of its synthesized name.\<close>

lemma synthesized_style_made:
  assumes "(sel, decl) \<in> set (parsedStylesOf d css)" and "\<not> isSimpleClass sel"
  shows "generateClassNameFromSelector sel \<in> s_name ` set (payload_styles (convert h d css))"
proof -
  let ?used = "collectUsedClasses (doc_body (removeStyleTags d))"
  have "styleNameOf (sel, decl) \<in> set (map styleNameOf (filter (makesStyle ?used) (parsedStylesOf d css)))"
    using assms by (force simp: makesStyle_def)
  then have "generateClassNameFromSelector sel \<in> set (map s_name (payload_styles (convert h d css)))"
    using assms(2) by (simp add: output_style_names walkStart_styles(1) styleNameOf_def)
  then show ?thesis by simp
qed






lemma collected_are_attached:
  "set (collectUsedClasses el) \<subseteq> set (attachedClasses el)"
  "set (collectUsedClassesOf ks) \<subseteq> set (attachedClassesOf ks)"
  by (induction el and ks rule: collectUsedClasses_collectUsedClassesOf.induct) auto

lemma attached_removeStyles:
  "set (attachedClassesOf (removeStyles ks)) \<subseteq> set (attachedClassesOf ks)"
  by (induction ks rule: removeStyles.induct) (auto simp: classList_def getAttribute_def)

lemma unattached_not_collected:
  assumes "c \<notin> set (attachedClasses (doc_body d))"
  shows "c \<notin> set (collectUsedClasses (doc_body (removeStyleTags d)))"
proof -
  have "set (collectUsedClasses (doc_body (removeStyleTags d))) \<subseteq>
        set (attachedClasses (doc_body (removeStyleTags d)))"
    by (rule collected_are_attached)
  also have "\<dots> \<subseteq> set (attachedClasses (doc_body d))"
    using attached_removeStyles[of "doc_body_nodes d"]
    by (auto simp: doc_body_def removeStyleTags_def classList_def getAttribute_def)
  finally show ?thesis using assms by blast
qed

lemma simple_class_dot: "isSimpleClass x \<Longrightarrow> x = CHR ''.'' # drop 1 x"
  by (cases x) (auto simp: isSimpleClass_def startsWith_def)


text \<open>
  The class of the body element itself counts on a frameset page, whose
  \<^verbatim>\<open>doc.body\<close> is no ignored tag, and not on a page with a body.
\<close>

lemma body_element_class:
  "payload_styles
     (convert exampleHost
        \<lparr>doc_head = [], doc_body_tag = ''frameset'', doc_body_attrs = [(''class'', ''foo'')],
         doc_body_nodes = []\<rparr> ''.foo { color: red; }'') =
     [\<lparr>s_id = ''u'', s_name = ''foo'', s_styleLess = ''color: red;''\<rparr>] \<and>
   payload_styles
     (convert exampleHost
        \<lparr>doc_head = [], doc_body_tag = ''body'', doc_body_attrs = [(''class'', ''foo'')],
         doc_body_nodes = []\<rparr> ''.foo { color: red; }'') = []"
  by code_simp

text \<open>
  Apart from a selector whose synthesized name is the name of the class, no entry of
  the stylesheet gives a style the name of an unused class.
\<close>

lemma unused_class_name_absent:
  assumes "isSimpleClass sel"
    and "drop 1 sel \<notin> set (attachedClasses (doc_body d))"
    and "\<forall>e\<in>set (parsedStylesOf d css).
           \<not> isSimpleClass (fst e) \<longrightarrow> generateClassNameFromSelector (fst e) \<noteq> drop 1 sel"
  shows "drop 1 sel \<notin> s_name ` set (payload_styles (convert h d css))"
proof
  let ?used = "collectUsedClasses (doc_body (removeStyleTags d))"
  assume "drop 1 sel \<in> s_name ` set (payload_styles (convert h d css))"
  then have "drop 1 sel \<in> set (map s_name (payload_styles (convert h d css)))" by simp
  then have "drop 1 sel \<in> set (map styleNameOf (filter (makesStyle ?used) (parsedStylesOf d css)))"
    by (simp only: output_style_names walkStart_styles(1))
  then obtain e where e: "e \<in> set (parsedStylesOf d css)" "makesStyle ?used e"
    "styleNameOf e = drop 1 sel"
    by auto
  have unused: "drop 1 sel \<notin> set ?used" by (rule unattached_not_collected[OF assms(2)])
  show False
  proof (cases "isSimpleClass (fst e)")
    case True
    then have "drop 1 (fst e) = drop 1 sel" using e(3) by (simp add: styleNameOf_def)
    then show False using e(2) True unused by (simp add: makesStyle_def)
  next
    case False
    then show False using assms(3) e(1,3) by (auto simp: styleNameOf_def)
  qed
qed



section \<open>Style tags\<close>

lemma no_styles_left: "styleElementsOf (removeStyles ks) = []"
  by (induction ks rule: removeStyles.induct) simp_all

section \<open>Defects\<close>

text \<open>
  Claim C2. The claim: every identifier in a children list names a node of the output.
  The code: the child loop of a kept element pushes whatever \<^verbatim>\<open>processElement\<close>
  returns, and an ignored child without kept children returns the empty string. For
  \<^verbatim>\<open><div><br></div>\<close> the children list of the div's node holds the empty string, and
  no node has the empty identifier.
\<close>

theorem dangling_child_identifier:
  "payload_nodes (convert exampleHost (bodyOf [Element ''div'' [] [Element ''br'' [] []]]) []) =
     [\<lparr>n_id = ''u'', n_type = Some (TypeName ''Block''), n_tag = Some ''div'',
       n_classes = Some [], n_children = Some [[]],
       n_data = Some (ElementData ''div'' [(''id'', [])] [] NoExtra),
       n_text = None, n_v = None\<rparr>]"
  by code_simp

text \<open>
  Claim C4. The claim: no two styles of one run carry the same name. The code: the
  selectors \<^verbatim>\<open>.a .b\<close> and \<^verbatim>\<open>.a > .b\<close> both get the synthesized name
  \<open>scoped-style-a-b\<close>, and each gets a style of its own.
\<close>

theorem style_names_collide:
  "generateClassNameFromSelector ''.a .b'' = ''scoped-style-a-b'' \<and>
   generateClassNameFromSelector ''.a > .b'' = ''scoped-style-a-b'' \<and>
   payload_styles (convert descendantHost descendantDoc
      ''.a .b { color: blue; } .a > .b { color: red; }'') =
     [\<lparr>s_id = ''u'', s_name = ''scoped-style-a-b'', s_styleLess = ''color: blue;''\<rparr>,
      \<lparr>s_id = ''u+'', s_name = ''scoped-style-a-b'', s_styleLess = ''color: red;''\<rparr>]"
  by code_simp

text \<open>
  Claim C9. The claim: the extractor reads the stylesheet together with the inline style
  blocks, so an advanced construct of an inline block reaches the embed. The code: when
  \<^verbatim>\<open>combinedCss\<close> is built the style tags are already removed from the document, so
  the query finds none and the extractor reads the external stylesheet and a line
  break. The media query of \<open>inlineMediaDoc\<close> reaches no embed (there is none), while
  the same media query in the external stylesheet does.
\<close>

theorem inline_styles_not_extracted:
  "querySelectorAll_style (removeStyleTags d) = [] \<and>
   combinedCss (removeStyleTags d) css = css @ [newline] \<and>
   map textContent (querySelectorAll_style inlineMediaDoc) =
     [''@media (max-width: 600px) { .a { color: red; } }''] \<and>
   relocatedCssParts inlineMediaDoc [] = [] \<and>
   map (\<lambda>n. (n_id n, n_type n, n_v n)) (payload_nodes (convert exampleHost inlineMediaDoc [])) =
     [(''u'', Some (TypeName ''Block''), None)] \<and>
   map (\<lambda>n. (n_id n, n_type n, n_v n))
     (payload_nodes (convert exampleHost (bodyOf [Element ''div'' [(''class'', ''a'')] []])
        ''@media (max-width: 600px) { .a { color: red; } }'')) =
     [(''u++'', Some (TypeName ''Block''), None),
      (''u'', Some (TypeName ''Block''), None),
      (''u+'', Some (TypeName ''HtmlEmbed''),
       Some (''<style>'' @ [newline] @ ''@media (max-width: 600px) { .a { color: red; } }'' @
             [newline] @ ''</style>''))]"
proof -
  have a: "querySelectorAll_style (removeStyleTags d) = []"
    by (simp add: querySelectorAll_style_def removeStyleTags_def no_styles_left)
  have b: "combinedCss (removeStyleTags d) css = css @ [newline]"
    by (simp add: combinedCss_def a)
  have c: "map textContent (querySelectorAll_style inlineMediaDoc) =
     [''@media (max-width: 600px) { .a { color: red; } }'']" by code_simp
  have d: "relocatedCssParts inlineMediaDoc [] = []" by code_simp
  have e: "map (\<lambda>n. (n_id n, n_type n, n_v n)) (payload_nodes (convert exampleHost inlineMediaDoc [])) =
     [(''u'', Some (TypeName ''Block''), None)]" by code_simp
  have f: "map (\<lambda>n. (n_id n, n_type n, n_v n))
     (payload_nodes (convert exampleHost (bodyOf [Element ''div'' [(''class'', ''a'')] []])
        ''@media (max-width: 600px) { .a { color: red; } }'')) =
     [(''u++'', Some (TypeName ''Block''), None),
      (''u'', Some (TypeName ''Block''), None),
      (''u+'', Some (TypeName ''HtmlEmbed''),
       Some (''<style>'' @ [newline] @ ''@media (max-width: 600px) { .a { color: red; } }'' @
             [newline] @ ''</style>''))]" by code_simp
  show ?thesis using a b c d e f by blast
qed

text \<open>
  Claim C10. The claim: a style made for a selector that matches no element is referenced
  by no node. The code: in \<open>descendantDoc\<close> the span matches \<^verbatim>\<open>.a .b\<close> and nothing
  matches \<^verbatim>\<open>.a > .b\<close>; both selectors get the name \<open>scoped-style-a-b\<close>, the map from
  names to identifiers keeps the later style, and the span gets the style \<open>u+\<close> that was
  made for \<^verbatim>\<open>.a > .b\<close>.
\<close>

theorem unmatched_style_referenced:
  "(\<forall>p. el_matches descendantHost p ''.a > .b'' = Some False) \<and>
   payload_styles (convert descendantHost descendantDoc
      ''.a .b { color: blue; } .a > .b { color: red; }'') =
     [\<lparr>s_id = ''u'', s_name = ''scoped-style-a-b'', s_styleLess = ''color: blue;''\<rparr>,
      \<lparr>s_id = ''u+'', s_name = ''scoped-style-a-b'', s_styleLess = ''color: red;''\<rparr>] \<and>
   map (\<lambda>n. (n_id n, n_tag n, n_classes n))
     (payload_nodes (convert descendantHost descendantDoc
        ''.a .b { color: blue; } .a > .b { color: red; }'')) =
     [(''u++'', Some ''div'', Some []),
      (''u+++'', Some ''p'', Some []),
      (''u++++'', Some ''span'', Some [''u+'']),
      (''u+++++'', None, None)]"
proof -
  have a: "\<forall>p. el_matches descendantHost p ''.a > .b'' = Some False"
    by (simp add: descendantHost_def)
  have b: "payload_styles (convert descendantHost descendantDoc
      ''.a .b { color: blue; } .a > .b { color: red; }'') =
     [\<lparr>s_id = ''u'', s_name = ''scoped-style-a-b'', s_styleLess = ''color: blue;''\<rparr>,
      \<lparr>s_id = ''u+'', s_name = ''scoped-style-a-b'', s_styleLess = ''color: red;''\<rparr>]"
    by code_simp
  have c: "map (\<lambda>n. (n_id n, n_tag n, n_classes n))
     (payload_nodes (convert descendantHost descendantDoc
        ''.a .b { color: blue; } .a > .b { color: red; }'')) =
     [(''u++'', Some ''div'', Some []),
      (''u+++'', Some ''p'', Some []),
      (''u++++'', Some ''span'', Some [''u+'']),
      (''u+++++'', None, None)]"
    by code_simp
  show ?thesis using a b c by blast
qed

end
